theory Spec2Isabelle
  imports Main
begin

section \<open>Paths and strings\<close>

text \<open>
  The program is Python 2 on a POSIX system: \<^verbatim>\<open>os.path\<close> is \<^verbatim>\<open>posixpath\<close>, strings are
  byte strings.  The three path functions the engine calls are written out as the library
  defines them.
\<close>

definition dquote :: char where
  "dquote = CHR 0x22"

definition startswith :: "string \<Rightarrow> string \<Rightarrow> bool" where
  "startswith s p = (take (length p) s = p)"

definition endswith :: "string \<Rightarrow> string \<Rightarrow> bool" where
  "endswith s p = (length p \<le> length s \<and> drop (length s - length p) s = p)"

text \<open>\<^verbatim>\<open>join(a, b)\<close>: an absolute second component replaces the first.\<close>

definition join :: "string \<Rightarrow> string \<Rightarrow> string" where
  "join a b =
     (if startswith b ''/'' then b
      else if a = [] \<or> endswith a ''/'' then a @ b
      else a @ ''/'' @ b)"

text \<open>
  \<^verbatim>\<open>split(p)\<close>: cut after the last slash; trailing slashes are stripped from the head
  unless the head is made of slashes only.
\<close>

definition rstrip_slash :: "string \<Rightarrow> string" where
  "rstrip_slash s = rev (dropWhile (\<lambda>c. c = CHR ''/'') (rev s))"

definition split_path :: "string \<Rightarrow> string \<times> string" where
  "split_path p =
     (let tail = rev (takeWhile (\<lambda>c. c \<noteq> CHR ''/'') (rev p));
          head = take (length p - length tail) p
      in (if head \<noteq> [] \<and> filter (\<lambda>c. c \<noteq> CHR ''/'') head \<noteq> []
          then rstrip_slash head else head, tail))"

text \<open>
  \<^verbatim>\<open>splitext(p)\<close>: cut at the last dot of the last component, unless that component has
  nothing but dots before it.
\<close>

definition splitext :: "string \<Rightarrow> string \<times> string" where
  "splitext p =
     (let tail = rev (takeWhile (\<lambda>c. c \<noteq> CHR ''/'') (rev p));
          ext = rev (takeWhile (\<lambda>c. c \<noteq> CHR ''.'') (rev tail));
          stem = take (length tail - length ext - 1) tail
      in if CHR ''.'' \<in> set tail \<and> filter (\<lambda>c. c \<noteq> CHR ''.'') stem \<noteq> []
         then (take (length p - length ext - 1) p, CHR ''.'' # ext)
         else (p, []))"

section \<open>The engine's data\<close>

text \<open>
  Exceptions are values.  \<open>AppExit\<close> is the program's own abort condition, the only one
  \<^verbatim>\<open>main\<close> catches; the others are the interpreter's and end the process with a traceback.
\<close>

datatype error =
    AppExit "string option"
  | IOError string
  | OSError string
  | KeyError string
  | AttributeError

text \<open>What the process does to the outside world, in order.\<close>

datatype event =
    Stat string
  | Opened string
  | Wrote string
  | Removed string
  | Printed string
  | Ran "string list"
  | Wrote_manifest string
  | Dumped_data string

text \<open>
  The durable record \<^verbatim>\<open>self.data\<close> holds three dictionaries.  A Python set of paths is
  the list of its elements in the order they were added (no element is ever taken out
  of one; a dictionary entry is dropped as a whole).  Python iterates over a set in the
  order of its hash table, which the elements and the order of their insertion
  determine: that order is the environment's \<^verbatim>\<open>iteration\<close>.  A stored record is a
  pickle of one, or bytes that \<^verbatim>\<open>load\<close> rejects; a pickled set lists its elements in
  iteration order, and loading adds them to a new set in that order.
\<close>

datatype stored =
    Pickled "string \<rightharpoonup> string" "string \<rightharpoonup> string list" "string \<rightharpoonup> string list"
  | Unreadable string

text \<open>
  The engine's settings, fixed by \<^verbatim>\<open>__init__\<close>.  The templates are format strings in
  the program; here they are the functions the \<^verbatim>\<open>%\<close> operator makes of them.
\<close>

datatype source = Raw string | File string

datatype uglify = No_uglify | Uglify_str string | Uglify_list "string list"

record spec =
  embed_path_root :: "string option"
  embed_url_base :: "string option"
  embed_url_template :: "string \<Rightarrow> string \<Rightarrow> string \<Rightarrow> string \<Rightarrow> string"
  embed_data_limit :: "int option"
  embed_extension :: string
  embed_only :: bool
  bidi :: bool
  bidi_extension :: string
  compressed :: bool
  bare :: bool
  uglify_opt :: uglify

datatype handler = BinaryAsset | CSSAsset | JSAsset

record asset =
  handler_of :: handler
  path :: string
  sources :: "source list"
  depends :: "string list"
  spec_of :: spec

record conf =
  config_path :: string
  base_dir :: string
  output_dir :: string
  output_template :: "string \<Rightarrow> string \<Rightarrow> string"
  hashed :: bool
  manifest_path :: "string option"
  manifest_force :: bool
  force :: bool
  data_path :: string
  prereqs :: "asset list"
  generate :: "asset list"

text \<open>
  What a run changes: the engine's attributes, the stylesheet handler's two attributes
  (\<^verbatim>\<open>generate\<close> resets both before it reads them, so one pair serves every asset), and
  the world.  The file tree maps a path to a modification time and a content; the
  manifest file and the durable record file are kept apart from it, each a cell that is
  empty or holds what was last serialised into it.  Directories are not modelled:
  \<^verbatim>\<open>makedirs\<close> and \<^verbatim>\<open>open\<close> for writing always succeed.
\<close>

record state =
  virgin :: bool
  manifest :: "string \<rightharpoonup> string"
  output_data :: "string \<rightharpoonup> string list"
  prereq_data :: "string \<rightharpoonup> string list"
  manifest_changed :: bool
  mtime_cache :: "string \<rightharpoonup> int"
  prereq :: bool
  cache :: "string \<rightharpoonup> string \<times> bool"
  first :: bool
  files :: "string \<rightharpoonup> int \<times> string"
  clock :: int
  trace :: "event list"
  manifest_file :: "(string \<rightharpoonup> string) option"
  data_file :: "stored option"

text \<open>
  What the program takes from libraries and external tools: the digest, the MIME table,
  the subprocess runners and the temporary directory.
\<close>

record env =
  sha1_hex :: "string \<Rightarrow> string"
  guess_type :: "string \<Rightarrow> string option"
  run_command :: "string list \<Rightarrow> (string \<rightharpoonup> int \<times> string) \<Rightarrow> (string \<times> int) \<times> (string \<rightharpoonup> int \<times> string)"
  popen :: "string list \<Rightarrow> string \<Rightarrow> string \<times> string"
  mkdtemp :: "(string \<rightharpoonup> int \<times> string) \<Rightarrow> string"
  iteration :: "string list \<Rightarrow> string list"

section \<open>Primitive effects\<close>

definition log :: "event \<Rightarrow> state \<Rightarrow> state" where
  "log e S = S\<lparr>trace := trace S @ [e]\<rparr>"

definition isfile :: "state \<Rightarrow> string \<Rightarrow> bool" where
  "isfile S p = (files S p \<noteq> None)"

text \<open>\<^verbatim>\<open>stat(p)[ST_MTIME]\<close>: one system call, \<^verbatim>\<open>OSError\<close> when the path is absent.\<close>

definition stat :: "string \<Rightarrow> state \<Rightarrow> (error + int) \<times> state" where
  "stat p S =
     (case files S p of
        None \<Rightarrow> (Inl (OSError p), log (Stat p) S)
      | Some (t, _) \<Rightarrow> (Inr t, log (Stat p) S))"

definition write_file :: "string \<Rightarrow> string \<Rightarrow> state \<Rightarrow> state" where
  "write_file p content S = log (Wrote p) (S\<lparr>files := (files S)(p \<mapsto> (clock S, content))\<rparr>)"

definition remove :: "string \<Rightarrow> state \<Rightarrow> state" where
  "remove p S = log (Removed p) (S\<lparr>files := (files S)(p := None)\<rparr>)"

definition print :: "string \<Rightarrow> state \<Rightarrow> state" where
  "print s S = log (Printed s) S"

text \<open>\<^verbatim>\<open>read(filename)\<close> for a path: \<^verbatim>\<open>IOError\<close> when it cannot be opened.\<close>

definition read :: "string \<Rightarrow> state \<Rightarrow> (error + string) \<times> state" where
  "read p S =
     (case files S p of
        None \<Rightarrow> (Inl (IOError p), log (Opened p) S)
      | Some (_, content) \<Rightarrow> (Inr content, log (Opened p) S))"

text \<open>\<^verbatim>\<open>exit(msg)\<close> prints the message and raises the abort condition.\<close>

definition exit :: "string \<Rightarrow> state \<Rightarrow> (error + 'a) \<times> state" where
  "exit msg S = (Inl (AppExit (Some msg)), print (''ERROR: '' @ msg) S)"

text \<open>
  \<^verbatim>\<open>s.setdefault(key, set()).add(x)\<close> on a dictionary of sets: an element the set has
  already leaves it as it is, a new one comes last in the order of insertion.
\<close>

definition add_to :: "(string \<rightharpoonup> string list) \<Rightarrow> string \<Rightarrow> string \<Rightarrow> (string \<rightharpoonup> string list)" where
  "add_to d key x =
     (let xs = (case d key of None \<Rightarrow> [] | Some xs \<Rightarrow> xs)
      in d(key \<mapsto> (if x \<in> set xs then xs else xs @ [x])))"

section \<open>Freshness\<close>

text \<open>
  \<^verbatim>\<open>newer(input, output, cache)\<close>: a cached time is used when the cache has one; an
  output that cannot be examined counts as older; equal times count as newer.  The
  function only reads the cache.
\<close>

definition mtime_of :: "(string \<rightharpoonup> int) \<Rightarrow> string \<Rightarrow> state \<Rightarrow> (error + int) \<times> state" where
  "mtime_of cch p S = (case cch p of Some t \<Rightarrow> (Inr t, S) | None \<Rightarrow> stat p S)"

definition newer :: "string \<Rightarrow> string \<Rightarrow> (string \<rightharpoonup> int) \<Rightarrow> state \<Rightarrow> (error + bool) \<times> state" where
  "newer input output cch S =
     (case mtime_of cch input S of
        (Inl e, S1) \<Rightarrow> (Inl e, S1)
      | (Inr input_mtime, S1) \<Rightarrow>
          (case mtime_of cch output S1 of
             (Inl e, S2) \<Rightarrow> (Inr True, S2)
           | (Inr output_mtime, S2) \<Rightarrow> (Inr (input_mtime \<ge> output_mtime), S2)))"

text \<open>The loop \<^verbatim>\<open>for dep in depends: if newer(dep, output, mtime_cache): ...\<close>.\<close>

primrec any_newer :: "string list \<Rightarrow> string \<Rightarrow> state \<Rightarrow> (error + bool) \<times> state" where
  "any_newer [] output S = (Inr False, S)"
| "any_newer (dep # deps) output S =
     (case newer dep output (mtime_cache S) S of
        (Inl e, S1) \<Rightarrow> (Inl e, S1)
      | (Inr b, S1) \<Rightarrow> if b then (Inr True, S1) else any_newer deps output S1)"

text \<open>The checks against the dependencies and then against the config file.\<close>

definition stale_against :: "conf \<Rightarrow> string list \<Rightarrow> string \<Rightarrow> state \<Rightarrow> (error + bool) \<times> state" where
  "stale_against c deps output S =
     (case any_newer deps output S of
        (Inl e, S1) \<Rightarrow> (Inl e, S1)
      | (Inr b, S1) \<Rightarrow>
          if b then (Inr True, S1)
          else newer (config_path c) output (mtime_cache S1) S1)"

definition is_fresh :: "env \<Rightarrow> conf \<Rightarrow> string \<Rightarrow> string list \<Rightarrow> state \<Rightarrow> (error + bool) \<times> state" where
  "is_fresh E c key deps S =
     (if force c then (Inr False, S)
      else if prereq S then
        (let output = join (base_dir c) key in
         if \<not> isfile S output
         then (Inr False, S\<lparr>prereq_data := (prereq_data S)(key := None)\<rparr>)
         else (case stale_against c deps output S of
                 (Inl e, S1) \<Rightarrow> (Inl e, S1)
               | (Inr b, S1) \<Rightarrow>
                   if b then (Inr False, S1\<lparr>prereq_data := (prereq_data S1)(key := None)\<rparr>)
                   else (Inr True, S1)))
      else
        (case output_data S key of
           None \<Rightarrow> (Inr False, S)
         | Some paths \<Rightarrow>
             if iteration E paths = [] then (Inr False, S)
             else if list_ex (\<lambda>p. \<not> isfile S (join (output_dir c) p)) (iteration E paths)
             then (Inr False, S\<lparr>output_data := (output_data S)(key := None)\<rparr>)
             else
               (case stale_against c deps (join (output_dir c) (last (iteration E paths))) S of
                  (Inl e, S1) \<Rightarrow> (Inl e, S1)
                | (Inr b, S1) \<Rightarrow>
                    if b then (Inr False, S1\<lparr>output_data := (output_data S1)(key := None)\<rparr>)
                    else (Inr True, S1))))"

section \<open>Emission\<close>

text \<open>
  \<^verbatim>\<open>emit(key, path, content, extension)\<close>.  Its first lines compute the logical path
  (the extension suffix goes before the file's own extension) and the versioned path.
\<close>

definition emit_filename :: "string \<Rightarrow> string \<Rightarrow> string" where
  "emit_filename p extension =
     (let filename = snd (split_path p) in
      if extension \<noteq> [] then
        (let (root, ext) = splitext filename in root @ extension @ ext)
      else filename)"

definition logical_path :: "string \<Rightarrow> string \<Rightarrow> string" where
  "logical_path p extension =
     (if extension \<noteq> [] then join (fst (split_path p)) (emit_filename p extension) else p)"

definition digest_of :: "env \<Rightarrow> conf \<Rightarrow> state \<Rightarrow> string \<Rightarrow> string option" where
  "digest_of E c S content =
     (if \<not> prereq S \<and> hashed c then Some (sha1_hex E content) else None)"

definition versioned_path :: "env \<Rightarrow> conf \<Rightarrow> state \<Rightarrow> string \<Rightarrow> string \<Rightarrow> string \<Rightarrow> string" where
  "versioned_path E c S p content extension =
     (case digest_of E c S content of
        Some digest \<Rightarrow>
          join (fst (split_path p)) (output_template c digest (emit_filename p extension))
      | None \<Rightarrow> logical_path p extension)"

text \<open>The last lines of \<^verbatim>\<open>emit\<close>: the manifest entry of the logical path.\<close>

definition update_manifest :: "conf \<Rightarrow> string \<Rightarrow> string \<Rightarrow> state \<Rightarrow> state" where
  "update_manifest c lp output_path S =
     (case manifest S lp of
        Some ex_output_path \<Rightarrow>
          if output_path = ex_output_path then S
          else
            (let ex_path = join (output_dir c) ex_output_path;
                 S1 = (if isfile S ex_path
                       then print (''.. Removed stale: '' @ ex_output_path) (remove ex_path S)
                       else S)
             in S1\<lparr>manifest := (manifest S1)(lp \<mapsto> output_path), manifest_changed := True\<rparr>)
      | None \<Rightarrow> S\<lparr>manifest := (manifest S)(lp \<mapsto> output_path), manifest_changed := True\<rparr>)"

definition generated_message :: "string \<Rightarrow> string option \<Rightarrow> string" where
  "generated_message lp digest =
     (case digest of
        Some d \<Rightarrow>
          if d \<noteq> [] then ''=> Generated output: '' @ lp @ '' ('' @ take 6 d @ '')''
          else ''=> Generated output: '' @ lp
      | None \<Rightarrow> ''=> Generated output: '' @ lp)"

definition emit :: "env \<Rightarrow> conf \<Rightarrow> string \<Rightarrow> string \<Rightarrow> string \<Rightarrow> string \<Rightarrow> state \<Rightarrow> state" where
  "emit E c key p content extension S =
     (let lp = logical_path p extension;
          digest = digest_of E c S content;
          output_path = versioned_path E c S p content extension
      in if prereq S then
           (let S1 = write_file (join (base_dir c) output_path) content S;
                S2 = S1\<lparr>prereq_data := add_to (prereq_data S1) key lp\<rparr>
            in print (''=> Generated prereq: '' @ output_path) S2)
         else
           (let S1 = write_file (join (output_dir c) output_path) content S;
                S2 = S1\<lparr>output_data := add_to (output_data S1) key output_path\<rparr>;
                S3 = print (generated_message lp digest) S2
            in update_manifest c lp output_path S3))"

section \<open>The stylesheet handler\<close>

text \<open>\<^verbatim>\<open>b64encode\<close>: three bytes become four characters, the last group is padded.\<close>

definition b64chars :: string where
  "b64chars = ''ABCDEFGHIJKLMNOPQRSTUVWXYZabcdefghijklmnopqrstuvwxyz0123456789+/''"

definition b64char :: "nat \<Rightarrow> char" where
  "b64char n = b64chars ! (n mod 64)"

fun b64encode :: "string \<Rightarrow> string" where
  "b64encode [] = []"
| "b64encode [a] =
     (let x = (of_char a :: nat)
      in [b64char (x div 4), b64char ((x mod 4) * 16), CHR ''='', CHR ''=''])"
| "b64encode [a, b] =
     (let x = (of_char a :: nat); y = (of_char b :: nat)
      in [b64char (x div 4), b64char ((x mod 4) * 16 + y div 16), b64char ((y mod 16) * 4),
          CHR ''=''])"
| "b64encode (a # b # c # rest) =
     (let x = (of_char a :: nat); y = (of_char b :: nat); z = (of_char c :: nat)
      in [b64char (x div 4), b64char ((x mod 4) * 16 + y div 16),
          b64char ((y mod 16) * 4 + z div 64), b64char (z mod 64)] @ b64encode rest)"

text \<open>The two forms a replaced occurrence takes.\<close>

definition url_form :: "string \<Rightarrow> string" where
  "url_form u = ''url('' @ [dquote] @ u @ [dquote] @ '')''"

definition data_uri_form :: "string \<Rightarrow> string \<Rightarrow> string" where
  "data_uri_form ctype content =
     ''url('' @ [dquote] @ ''data:'' @ ctype @ '';base64,'' @ content @ [dquote] @ '')''"

text \<open>\<^verbatim>\<open>'%s' % None\<close> is the text \<^verbatim>\<open>None\<close>; an unset string is falsy, and so is an empty one.\<close>

definition py_str :: "string option \<Rightarrow> string" where
  "py_str v = (case v of None \<Rightarrow> ''None'' | Some s \<Rightarrow> s)"

definition truthy :: "string option \<Rightarrow> bool" where
  "truthy v = (case v of None \<Rightarrow> False | Some s \<Rightarrow> s \<noteq> [])"

definition get_embed_url :: "env \<Rightarrow> conf \<Rightarrow> asset \<Rightarrow> string \<Rightarrow> string option \<Rightarrow> string" where
  "get_embed_url E c a p data =
     (let digest = (case data of
                      None \<Rightarrow> []
                    | Some d \<Rightarrow> if hashed c then sha1_hex E d @ ''-'' else []);
          (prefix, filename) = split_path p
      in embed_url_template (spec_of a) (py_str (embed_url_base (spec_of a))) prefix digest filename)"

text \<open>
  \<^verbatim>\<open>join(self.embed_path_root, path)\<close> with a root that is not set: the library calls a
  string method on \<^verbatim>\<open>None\<close> unless the path is absolute.
\<close>

definition join_root :: "string option \<Rightarrow> string \<Rightarrow> error + string" where
  "join_root root p =
     (case root of
        Some r \<Rightarrow> Inr (join r p)
      | None \<Rightarrow> if startswith p ''/'' then Inr p else Inl AttributeError)"

text \<open>\<^verbatim>\<open>self.cache.setdefault(path, v)\<close>.\<close>

definition setdefault :: "string \<Rightarrow> string \<times> bool \<Rightarrow> state \<Rightarrow> (error + string \<times> bool) \<times> state" where
  "setdefault p v S =
     (case cache S p of
        Some v0 \<Rightarrow> (Inr v0, S)
      | None \<Rightarrow> (Inr v, S\<lparr>cache := (cache S)(p \<mapsto> v)\<rparr>))"

definition get_embed_file :: "env \<Rightarrow> conf \<Rightarrow> asset \<Rightarrow> string \<Rightarrow> state \<Rightarrow> (error + string \<times> bool) \<times> state" where
  "get_embed_file E c a p S =
     (if \<not> first S then
        (case cache S p of
           None \<Rightarrow> (Inl (KeyError p), S)
         | Some v \<Rightarrow> (Inr v, S))
      else
        (case join_root (embed_path_root (spec_of a)) p of
           Inl e \<Rightarrow> (Inl e, S)
         | Inr full \<Rightarrow>
             (case read full S of
                (Inl e, S1) \<Rightarrow>
                  setdefault p (url_form (get_embed_url E c a p None), False)
                    (print (''!! Couldn't find '' @ full @ '' for '' @ path a) S1)
              | (Inr data, S1) \<Rightarrow> setdefault p (data, True) S1)))"

definition convert_to_data_uri :: "env \<Rightarrow> conf \<Rightarrow> asset \<Rightarrow> string \<Rightarrow> state \<Rightarrow> (error + string) \<times> state" where
  "convert_to_data_uri E c a p S =
     (case guess_type E p of
        None \<Rightarrow> exit (''Could not detect the content type of: '' @ p) S
      | Some ctype \<Rightarrow>
          if ctype = [] then exit (''Could not detect the content type of: '' @ p) S
          else
            (case get_embed_file E c a p S of
               (Inl e, S1) \<Rightarrow> (Inl e, S1)
             | (Inr (data, ok), S1) \<Rightarrow>
                 if \<not> ok then (Inr data, S1)
                 else
                   (let content = b64encode data in
                    if (case embed_data_limit (spec_of a) of
                          None \<Rightarrow> False
                        | Some limit \<Rightarrow> limit \<noteq> 0 \<and> int (length content) > limit)
                    then (Inr (url_form (get_embed_url E c a p (Some data))), S1)
                    else (Inr (data_uri_form ctype content), S1))))"

definition convert_to_url :: "env \<Rightarrow> conf \<Rightarrow> asset \<Rightarrow> string \<Rightarrow> state \<Rightarrow> (error + string) \<times> state" where
  "convert_to_url E c a p S =
     (case get_embed_file E c a p S of
        (Inl e, S1) \<Rightarrow> (Inl e, S1)
      | (Inr (data, ok), S1) \<Rightarrow>
          if \<not> ok then (Inr data, S1)
          else (Inr (url_form (get_embed_url E c a p (Some data))), S1))"

text \<open>
  The pattern \<^verbatim>\<open>embed\("([^\)]*)"\)\<close> at the head of a text: after the opening, the
  characters up to the first closing parenthesis must end in a double quote; the group
  is what stands before that quote.  The result is the group and the text after the
  match.
\<close>

definition match_embed :: "string \<Rightarrow> (string \<times> string) option" where
  "match_embed s =
     (if startswith s (''embed('' @ [dquote]) then
        (let body = drop 7 s;
             run = takeWhile (\<lambda>ch. ch \<noteq> CHR '')'') body;
             rest = dropWhile (\<lambda>ch. ch \<noteq> CHR '')'') body
         in if rest \<noteq> [] \<and> run \<noteq> [] \<and> last run = dquote
            then Some (butlast run, tl rest) else None)
      else None)"

text \<open>
  \<^verbatim>\<open>substitute_embeds(replacer, content)\<close>: the matches from left to right, none
  overlapping another, each replaced by what the replacer returns for its group.
\<close>

function sub_embeds ::
  "(string \<Rightarrow> state \<Rightarrow> (error + string) \<times> state) \<Rightarrow> string \<Rightarrow> state \<Rightarrow> (error + string) \<times> state" where
  "sub_embeds f [] S = (Inr [], S)"
| "sub_embeds f (x # xs) S =
     (case match_embed (x # xs) of
        Some (p, rest) \<Rightarrow>
          (case f p S of
             (Inl e, S1) \<Rightarrow> (Inl e, S1)
           | (Inr r, S1) \<Rightarrow>
               (case sub_embeds f rest S1 of
                  (Inl e, S2) \<Rightarrow> (Inl e, S2)
                | (Inr out, S2) \<Rightarrow> (Inr (r @ out), S2)))
      | None \<Rightarrow>
          (case sub_embeds f xs S of
             (Inl e, S1) \<Rightarrow> (Inl e, S1)
           | (Inr out, S1) \<Rightarrow> (Inr (x # out), S1)))"
  by pat_completeness auto
termination
proof (relation "measure (\<lambda>(f, s, S). length s)")
  show "wf (measure (\<lambda>(f, s, S). length s))" by simp
next
  fix f :: "string \<Rightarrow> state \<Rightarrow> (error + string) \<times> state"
  fix x xs S x2 p rest and S1 :: state
  assume m: "match_embed (x # xs) = Some x2" and x2: "(p, rest) = x2"
  have "rest = tl (dropWhile (\<lambda>ch. ch \<noteq> CHR '')'') (drop 7 (x # xs)))"
    using m x2 by (auto simp: match_embed_def Let_def split: if_splits)
  moreover have "length (tl (dropWhile (\<lambda>ch. ch \<noteq> CHR '')'') (drop 7 (x # xs)))) \<le> length xs"
    using length_dropWhile_le [of "\<lambda>ch. ch \<noteq> CHR '')''" "drop 7 (x # xs)"] by simp
  ultimately show "((f, rest, S1), (f, x # xs, S)) \<in> measure (\<lambda>(f, s, S). length s)"
    by simp
next
  fix f :: "string \<Rightarrow> state \<Rightarrow> (error + string) \<times> state"
  fix x :: char and xs :: string and S :: state
  show "((f, xs, S), (f, x # xs, S)) \<in> measure (\<lambda>(f, s, S). length s)" by simp
qed

text \<open>\<^verbatim>\<open>embed(replacer, content)\<close>: one substitution pass; it ends the first pass.\<close>

definition embed :: "(string \<Rightarrow> state \<Rightarrow> (error + string) \<times> state) \<Rightarrow> string \<Rightarrow> state \<Rightarrow> (error + string) \<times> state" where
  "embed replacer content S =
     (case sub_embeds replacer content S of
        (Inl e, S1) \<Rightarrow> (Inl e, S1)
      | (Inr out, S1) \<Rightarrow> (Inr out, S1\<lparr>first := False\<rparr>))"

text \<open>
  \<^verbatim>\<open>do(args)\<close> runs an external tool, which may change the file tree, and aborts on a
  non-zero return code.
\<close>

definition do_cmd :: "env \<Rightarrow> string list \<Rightarrow> state \<Rightarrow> (error + string) \<times> state" where
  "do_cmd E args S =
     (let ((ret, retcode), fs) = run_command E args (files S);
          S1 = log (Ran args) (S\<lparr>files := fs\<rparr>)
      in if retcode \<noteq> 0 then (Inl (AppExit None), S1) else (Inr ret, S1))"

text \<open>\<^verbatim>\<open>tempstyl.replace(".styl", ".css")\<close>.\<close>

fun replace_styl :: "string \<Rightarrow> string" where
  "replace_styl [] = []"
| "replace_styl (x # xs) =
     (if startswith (x # xs) ''.styl'' then ''.css'' @ replace_styl (drop 4 xs)
      else x # replace_styl xs)"

definition rmtree :: "string \<Rightarrow> state \<Rightarrow> state" where
  "rmtree td S =
     log (Removed td) (S\<lparr>files := (\<lambda>p. if startswith p (join td []) then None else files S p)\<rparr>)"

text \<open>
  A stylus source is copied into a temporary directory, compiled there, and the
  stylesheet the tool leaves beside it is read; the directory is removed however the
  block ends.
\<close>

definition stylus :: "env \<Rightarrow> asset \<Rightarrow> string \<Rightarrow> state \<Rightarrow> (error + string) \<times> state" where
  "stylus E a src S =
     (let td = mkdtemp E (files S);
          tempstyl = join td (snd (split_path src));
          tempcss = replace_styl tempstyl
      in case read src S of
           (Inl e, S1) \<Rightarrow> (Inl e, rmtree td S1)
         | (Inr text, S1) \<Rightarrow>
             (case do_cmd E ([''stylus''] @ (if compressed (spec_of a) then [''--compress''] else [])
                               @ [tempstyl]) (write_file tempstyl text S1) of
                (Inl e, S2) \<Rightarrow> (Inl e, rmtree td S2)
              | (Inr _, S2) \<Rightarrow>
                  (case read tempcss S2 of
                     (Inl e, S3) \<Rightarrow> (Inl e, rmtree td S3)
                   | (Inr css, S3) \<Rightarrow> (Inr css, rmtree td S3))))"

definition css_source :: "env \<Rightarrow> asset \<Rightarrow> string \<Rightarrow> source \<Rightarrow> state \<Rightarrow> (error + string) \<times> state" where
  "css_source E a bidi_ext src S =
     (case src of
        Raw text \<Rightarrow> (Inr text, S)
      | File p \<Rightarrow>
          if endswith p ''.sass'' \<or> endswith p ''.scss'' then
            do_cmd E ([''sass'']
                      @ (if endswith p ''.scss'' then [''--scss''] else [])
                      @ (if bidi_ext \<noteq> [] then [''--flip''] else [])
                      @ (if compressed (spec_of a) then [''--style'', ''compressed''] else [])
                      @ [p]) S
          else if endswith p ''.less'' then do_cmd E [''lessc'', p] S
          else if endswith p ''.styl'' then stylus E a p S
          else read p S)"

primrec css_sources :: "env \<Rightarrow> asset \<Rightarrow> string \<Rightarrow> source list \<Rightarrow> state \<Rightarrow> (error + string) \<times> state" where
  "css_sources E a bidi_ext [] S = (Inr [], S)"
| "css_sources E a bidi_ext (src # rest) S =
     (case css_source E a bidi_ext src S of
        (Inl e, S1) \<Rightarrow> (Inl e, S1)
      | (Inr text, S1) \<Rightarrow>
          (case css_sources E a bidi_ext rest S1 of
             (Inl e, S2) \<Rightarrow> (Inl e, S2)
           | (Inr others, S2) \<Rightarrow> (Inr (text @ others), S2)))"

text \<open>
  One turn of the loop \<^verbatim>\<open>for bidi in self.todo\<close>; the result says whether
  \<^verbatim>\<open>generate\<close> returned from inside it.
\<close>

definition css_variant :: "env \<Rightarrow> conf \<Rightarrow> asset \<Rightarrow> string \<Rightarrow> state \<Rightarrow> (error + bool) \<times> state" where
  "css_variant E c a bidi_ext S =
     (case css_sources E a bidi_ext (sources a) S of
        (Inl e, S1) \<Rightarrow> (Inl e, S1)
      | (Inr output, S1) \<Rightarrow>
          (let url_pass = (\<lambda>S2.
                 case embed (convert_to_url E c a) output S2 of
                   (Inl e, S3) \<Rightarrow> (Inl e, S3)
                 | (Inr out, S3) \<Rightarrow> (Inr False, emit E c (path a) (path a) out bidi_ext S3))
           in if truthy (embed_path_root (spec_of a)) \<and> truthy (embed_url_base (spec_of a)) then
                (case embed (convert_to_data_uri E c a) output S1 of
                   (Inl e, S2) \<Rightarrow> (Inl e, S2)
                 | (Inr out, S2) \<Rightarrow>
                     if embed_only (spec_of a)
                     then (Inr True, emit E c (path a) (path a) out bidi_ext S2)
                     else url_pass
                            (emit E c (path a) (path a) out (embed_extension (spec_of a) @ bidi_ext) S2))
              else url_pass S1))"

primrec css_variants :: "env \<Rightarrow> conf \<Rightarrow> asset \<Rightarrow> string list \<Rightarrow> state \<Rightarrow> (error + unit) \<times> state" where
  "css_variants E c a [] S = (Inr (), S)"
| "css_variants E c a (bidi_ext # rest) S =
     (case css_variant E c a bidi_ext S of
        (Inl e, S1) \<Rightarrow> (Inl e, S1)
      | (Inr returned, S1) \<Rightarrow> if returned then (Inr (), S1) else css_variants E c a rest S1)"

definition todo :: "asset \<Rightarrow> string list" where
  "todo a = (if bidi (spec_of a) then [[], bidi_extension (spec_of a)] else [[]])"

definition css_generate :: "env \<Rightarrow> conf \<Rightarrow> asset \<Rightarrow> state \<Rightarrow> (error + unit) \<times> state" where
  "css_generate E c a S = css_variants E c a (todo a) (S\<lparr>first := True, cache := Map.empty\<rparr>)"

section \<open>The binary and script handlers\<close>

definition read_source :: "source \<Rightarrow> state \<Rightarrow> (error + string) \<times> state" where
  "read_source src S = (case src of Raw text \<Rightarrow> (Inr text, S) | File p \<Rightarrow> read p S)"

primrec read_sources :: "source list \<Rightarrow> state \<Rightarrow> (error + string) \<times> state" where
  "read_sources [] S = (Inr [], S)"
| "read_sources (src # rest) S =
     (case read_source src S of
        (Inl e, S1) \<Rightarrow> (Inl e, S1)
      | (Inr text, S1) \<Rightarrow>
          (case read_sources rest S1 of
             (Inl e, S2) \<Rightarrow> (Inl e, S2)
           | (Inr others, S2) \<Rightarrow> (Inr (text @ others), S2)))"

definition binary_generate :: "env \<Rightarrow> conf \<Rightarrow> asset \<Rightarrow> state \<Rightarrow> (error + unit) \<times> state" where
  "binary_generate E c a S =
     (case read_sources (sources a) S of
        (Inl e, S1) \<Rightarrow> (Inl e, S1)
      | (Inr content, S1) \<Rightarrow> (Inr (), emit E c (path a) (path a) content [] S1))"

definition js_source :: "env \<Rightarrow> asset \<Rightarrow> source \<Rightarrow> state \<Rightarrow> (error + string) \<times> state" where
  "js_source E a src S =
     (case src of
        Raw text \<Rightarrow> (Inr text, S)
      | File p \<Rightarrow>
          if endswith p ''.coffee''
          then do_cmd E ([''coffee'', ''-p''] @ (if bare (spec_of a) then [''-b''] else []) @ [p]) S
          else read p S)"

primrec js_sources :: "env \<Rightarrow> asset \<Rightarrow> source list \<Rightarrow> state \<Rightarrow> (error + string) \<times> state" where
  "js_sources E a [] S = (Inr [], S)"
| "js_sources E a (src # rest) S =
     (case js_source E a src S of
        (Inl e, S1) \<Rightarrow> (Inl e, S1)
      | (Inr text, S1) \<Rightarrow>
          (case js_sources E a rest S1 of
             (Inl e, S2) \<Rightarrow> (Inl e, S2)
           | (Inr others, S2) \<Rightarrow> (Inr (text @ others), S2)))"

definition uglify_args :: "uglify \<Rightarrow> string list" where
  "uglify_args u =
     (case u of
        No_uglify \<Rightarrow> []
      | Uglify_str s \<Rightarrow> if s \<noteq> [] then [s] else []
      | Uglify_list l \<Rightarrow> l)"

definition uglify_set :: "uglify \<Rightarrow> bool" where
  "uglify_set u =
     (case u of No_uglify \<Rightarrow> False | Uglify_str s \<Rightarrow> s \<noteq> [] | Uglify_list l \<Rightarrow> l \<noteq> [])"

definition js_generate :: "env \<Rightarrow> conf \<Rightarrow> asset \<Rightarrow> state \<Rightarrow> (error + unit) \<times> state" where
  "js_generate E c a S =
     (case js_sources E a (sources a) S of
        (Inl e, S1) \<Rightarrow> (Inl e, S1)
      | (Inr output, S1) \<Rightarrow>
          if compressed (spec_of a) \<or> uglify_set (uglify_opt (spec_of a)) then
            (let cmd = [''uglifyjs''] @ uglify_args (uglify_opt (spec_of a));
                 (out, stderr) = popen E cmd output;
                 S2 = log (Ran cmd) S1
             in if stderr \<noteq> []
                then exit (''!! Got error uglifying: '' @ path a @ [CHR 0x0A, CHR 0x0A] @ stderr) S2
                else (Inr (), emit E c (path a) (path a) out [] S2))
          else (Inr (), emit E c (path a) (path a) output [] S1))"

section \<open>The run\<close>

definition generate_asset :: "env \<Rightarrow> conf \<Rightarrow> asset \<Rightarrow> state \<Rightarrow> (error + unit) \<times> state" where
  "generate_asset E c a S =
     (case handler_of a of
        BinaryAsset \<Rightarrow> binary_generate E c a S
      | CSSAsset \<Rightarrow> css_generate E c a S
      | JSAsset \<Rightarrow> js_generate E c a S)"

text \<open>
  The loop \<^verbatim>\<open>for asset in ...: if not asset.is_fresh(): change = True; asset.generate()\<close>,
  with the local \<^verbatim>\<open>change\<close> passed along.
\<close>

primrec run_assets :: "env \<Rightarrow> conf \<Rightarrow> asset list \<Rightarrow> bool \<Rightarrow> state \<Rightarrow> (error + bool) \<times> state" where
  "run_assets E c [] change S = (Inr change, S)"
| "run_assets E c (a # rest) change S =
     (case is_fresh E c (path a) (depends a) S of
        (Inl e, S1) \<Rightarrow> (Inl e, S1)
      | (Inr fresh, S1) \<Rightarrow>
          if fresh then run_assets E c rest change S1
          else (case generate_asset E c a S1 of
                  (Inl e, S2) \<Rightarrow> (Inl e, S2)
                | (Inr _, S2) \<Rightarrow> run_assets E c rest True S2))"

definition write_manifest :: "conf \<Rightarrow> state \<Rightarrow> state" where
  "write_manifest c S =
     (case manifest_path c of
        None \<Rightarrow> S
      | Some mp \<Rightarrow>
          if mp \<noteq> [] \<and> (manifest_changed S \<or> manifest_force c \<or> force c)
          then log (Wrote_manifest mp)
                 ((print (''=> Updated manifest: '' @ mp) S)\<lparr>manifest_file := Some (manifest S)\<rparr>)
          else S)"

definition dump_data :: "env \<Rightarrow> conf \<Rightarrow> state \<Rightarrow> state" where
  "dump_data E c S =
     log (Dumped_data (data_path c))
       (S\<lparr>data_file := Some (Pickled (manifest S)
                                  (map_option (iteration E) \<circ> output_data S)
                                  (map_option (iteration E) \<circ> prereq_data S))\<rparr>)"

text \<open>
  The head of \<^verbatim>\<open>run\<close>: the first run of an engine binds the three dictionaries (they
  are always there in this model), and every run resets the manifest flag and the time
  cache and enters the prereq phase.
\<close>

definition run_start :: "state \<Rightarrow> state" where
  "run_start S =
     S\<lparr>virgin := False, manifest_changed := False, mtime_cache := Map.empty, prereq := True\<rparr>"

definition run :: "env \<Rightarrow> conf \<Rightarrow> state \<Rightarrow> (error + unit) \<times> state" where
  "run E c S =
     (case run_assets E c (prereqs c) (virgin S) (run_start S) of
        (Inl e, S1) \<Rightarrow> (Inl e, S1)
      | (Inr change1, S1) \<Rightarrow>
          (case run_assets E c (generate c) change1 (S1\<lparr>prereq := False\<rparr>) of
             (Inl e, S2) \<Rightarrow> (Inl e, S2)
           | (Inr change2, S2) \<Rightarrow>
               (Inr (), if change2 then dump_data E c (write_manifest c S2)
                        else write_manifest c S2)))"

section \<open>Construction\<close>

text \<open>
  The part of \<^verbatim>\<open>__init__\<close> that loads the durable record: a file that is there and
  unpickles gives the record, anything else the empty one.  Reading the config is the
  declaration source's business and does not consult the record.
\<close>

definition load_data :: "stored option \<Rightarrow> stored" where
  "load_data cell =
     (case cell of
        None \<Rightarrow> Pickled Map.empty Map.empty Map.empty
      | Some (Pickled m od pd) \<Rightarrow> Pickled m od pd
      | Some (Unreadable _) \<Rightarrow> Pickled Map.empty Map.empty Map.empty)"

definition construct :: "state \<Rightarrow> state" where
  "construct W =
     (case load_data (data_file W) of
        Pickled m od pd \<Rightarrow> W\<lparr>virgin := True, manifest := m, output_data := od, prereq_data := pd\<rparr>
      | Unreadable _ \<Rightarrow> W\<lparr>virgin := True\<rparr>)"

section \<open>Notions the properties are stated with\<close>

text \<open>
  The modification time a freshness check works with for a path: the cached one when
  the cache has one, else the file's.
\<close>

definition known_mtime :: "state \<Rightarrow> string \<Rightarrow> int option" where
  "known_mtime S p =
     (case mtime_cache S p of Some t \<Rightarrow> Some t | None \<Rightarrow> map_option fst (files S p))"

text \<open>
  The output a freshness check compares against: the declared file in the prereq phase,
  the last of the recorded output paths, as the set is iterated, in the output phase.  With no recorded path the
  check answers stale before it compares anything; the definition then names the output
  directory.
\<close>

definition compared_output :: "env \<Rightarrow> conf \<Rightarrow> string \<Rightarrow> state \<Rightarrow> string" where
  "compared_output E c key S =
     (if prereq S then join (base_dir c) key
      else (case output_data S key of
              None \<Rightarrow> join (output_dir c) []
            | Some paths \<Rightarrow>
                if iteration E paths = [] then join (output_dir c) []
                else join (output_dir c) (last (iteration E paths))))"

text \<open>A step that only appends to the trace.\<close>

definition only_logs :: "state \<Rightarrow> state \<Rightarrow> bool" where
  "only_logs S S' = (\<exists>es. S' = S\<lparr>trace := trace S @ es\<rparr>)"




text \<open>
  The end-of-run writes as events, and a step that leaves the two durable files, the time
  cache and the phase alone and logs neither of those writes.
\<close>

definition persist_event :: "event \<Rightarrow> bool" where
  "persist_event e = (case e of Wrote_manifest _ \<Rightarrow> True | Dumped_data _ \<Rightarrow> True | _ \<Rightarrow> False)"

definition quiet :: "state \<Rightarrow> state \<Rightarrow> bool" where
  "quiet S S' =
     (manifest_file S' = manifest_file S \<and> data_file S' = data_file S
      \<and> mtime_cache S' = mtime_cache S \<and> virgin S' = virgin S \<and> prereq S' = prereq S
      \<and> (\<exists>es. trace S' = trace S @ es \<and> filter persist_event es = []))"

definition dump_event :: "event \<Rightarrow> bool" where
  "dump_event e = (case e of Dumped_data _ \<Rightarrow> True | _ \<Rightarrow> False)"

definition new_events :: "state \<Rightarrow> state \<Rightarrow> event list" where
  "new_events S S' = drop (length (trace S)) (trace S')"

definition unpersisted :: "state \<Rightarrow> state \<Rightarrow> bool" where
  "unpersisted S S' =
     (manifest_file S' = manifest_file S \<and> data_file S' = data_file S
      \<and> (\<exists>es. trace S' = trace S @ es \<and> filter persist_event es = []))"

text \<open>
  Two states that differ in the trace at most; a step that leaves the durable record file
  alone and does not log a dump; and the guard under which a freshness check goes on to
  compare times.
\<close>

definition agree :: "state \<Rightarrow> state \<Rightarrow> bool" where
  "agree S S' = (\<exists>t. S' = S\<lparr>trace := t\<rparr>)"

definition undumped :: "state \<Rightarrow> state \<Rightarrow> bool" where
  "undumped S S' =
     (data_file S' = data_file S \<and> (\<exists>es. trace S' = trace S @ es \<and> filter dump_event es = []))"

definition checks_times :: "env \<Rightarrow> conf \<Rightarrow> string \<Rightarrow> state \<Rightarrow> bool" where
  "checks_times E c key S =
     (\<not> force c \<and>
      (if prereq S then isfile S (join (base_dir c) key)
       else (case output_data S key of
               None \<Rightarrow> False
             | Some paths \<Rightarrow>
                 iteration E paths \<noteq> []
                 \<and> \<not> list_ex (\<lambda>p. \<not> isfile S (join (output_dir c) p)) (iteration E paths))))"

text \<open>
  The groups of the embed occurrences of a text, in the order the substitution meets
  them.
\<close>

function embed_paths :: "string \<Rightarrow> string list" where
  "embed_paths [] = []"
| "embed_paths (x # xs) =
     (case match_embed (x # xs) of
        Some (p, rest) \<Rightarrow> p # embed_paths rest
      | None \<Rightarrow> embed_paths xs)"
  by pat_completeness auto
termination
proof (relation "measure length")
  show "wf (measure length)" by simp
next
  fix x :: char and xs :: string and x2 p rest
  assume m: "match_embed (x # xs) = Some x2" and x2: "(p, rest) = x2"
  have "rest = tl (dropWhile (\<lambda>ch. ch \<noteq> CHR '')'') (drop 7 (x # xs)))"
    using m x2 by (auto simp: match_embed_def Let_def split: if_splits)
  moreover have "length (tl (dropWhile (\<lambda>ch. ch \<noteq> CHR '')'') (drop 7 (x # xs)))) \<le> length xs"
    using length_dropWhile_le [of "\<lambda>ch. ch \<noteq> CHR '')''" "drop 7 (x # xs)"] by simp
  ultimately show "(rest, x # xs) \<in> measure length" by simp
next
  fix x :: char and xs :: string
  show "(xs, x # xs) \<in> measure length" by simp
qed

text \<open>The message of the abort for a path whose content type cannot be guessed.\<close>

definition undetected :: "string \<Rightarrow> string" where
  "undetected p = ''Could not detect the content type of: '' @ p"


section \<open>Example configurations\<close>

text \<open>
  Concrete settings for the instances below: a project at \<^verbatim>\<open>/p\<close> with output directory
  \<^verbatim>\<open>/p/out\<close>, the default templates, a stand-in digest, a MIME table that knows \<^verbatim>\<open>.png\<close>, and tools that
  succeed with empty output.
\<close>

definition ex_env :: env where
  "ex_env =
     \<lparr>sha1_hex = (\<lambda>s. ''h'' @ s),
      guess_type = (\<lambda>p. if endswith p ''.png'' then Some ''image/png'' else None),
      run_command = (\<lambda>args fs. (([], 0), fs)),
      popen = (\<lambda>args inp. (inp, [])),
      mkdtemp = (\<lambda>fs. ''/tmp/t''),
      iteration = (\<lambda>xs. xs)\<rparr>"

definition ex_spec :: spec where
  "ex_spec =
     \<lparr>embed_path_root = Some ''/p/img'',
      embed_url_base = Some ''/static/'',
      embed_url_template = (\<lambda>url_base prefix hash filename. url_base @ prefix @ ''/'' @ hash @ filename),
      embed_data_limit = Some 32000,
      embed_extension = ''.data'',
      embed_only = False,
      bidi = False,
      bidi_extension = ''.rtl'',
      compressed = True,
      bare = True,
      uglify_opt = No_uglify\<rparr>"

definition ex_conf :: "asset list \<Rightarrow> asset list \<Rightarrow> conf" where
  "ex_conf ps gs =
     \<lparr>config_path = ''/p/assetgen.yaml'',
      base_dir = ''/p'',
      output_dir = ''/p/out'',
      output_template = (\<lambda>hash filename. hash @ ''-'' @ filename),
      hashed = False,
      manifest_path = Some ''/p/manifest.json'',
      manifest_force = False,
      force = False,
      data_path = ''/tmp/assetgen-0/data'',
      prereqs = ps,
      generate = gs\<rparr>"

definition ex_state :: "(string \<rightharpoonup> int \<times> string) \<Rightarrow> state" where
  "ex_state fs =
     \<lparr>virgin = True,
      manifest = Map.empty,
      output_data = Map.empty,
      prereq_data = Map.empty,
      manifest_changed = False,
      mtime_cache = Map.empty,
      prereq = False,
      cache = Map.empty,
      first = False,
      files = fs,
      clock = 9,
      trace = [],
      manifest_file = None,
      data_file = None\<rparr>"

text \<open>
  A binary asset made of inline text, a stylesheet whose only source is inline text with
  one embed occurrence, and a world in which two binary outputs have been built after
  the config file was last changed.
\<close>

definition ex_binary :: "string \<Rightarrow> asset" where
  "ex_binary p =
     \<lparr>handler_of = BinaryAsset, path = p, sources = [Raw ''hello''], depends = [], spec_of = ex_spec\<rparr>"

definition ex_css :: "string \<Rightarrow> asset" where
  "ex_css p =
     \<lparr>handler_of = CSSAsset, path = ''site.css'',
      sources = [Raw (''a{b:embed('' @ [dquote] @ p @ [dquote] @ '')}'')],
      depends = [], spec_of = ex_spec\<rparr>"

definition ex_built :: state where
  "ex_built =
     (ex_state [''/p/assetgen.yaml'' \<mapsto> (1, ''c''), ''/p/out/a.txt'' \<mapsto> (5, ''hello''),
                ''/p/out/b.txt'' \<mapsto> (5, ''hello'')])
       \<lparr>output_data := [''a.txt'' \<mapsto> [''a.txt''], ''b.txt'' \<mapsto> [''b.txt'']]\<rparr>"



definition ex_first :: state where
  "ex_first = (ex_state [''/p/img/x.png'' \<mapsto> (1, ''Man'')])\<lparr>first := True\<rparr>"

definition ex_fresh_start :: state where
  "ex_fresh_start = ex_state [''/p/assetgen.yaml'' \<mapsto> (1, ''c'')]"

definition ex_occurrence :: "string \<Rightarrow> string" where
  "ex_occurrence p = ''embed('' @ [dquote] @ p @ [dquote] @ '')''"


definition ex_flip_env :: env where
  "ex_flip_env =
     ex_env\<lparr>run_command := (\<lambda>args fs.
        ((if ''--flip'' \<in> set args then ex_occurrence ''right.png'' else ex_occurrence ''left.png'', 0), fs))\<rparr>"

definition ex_bidi :: asset where
  "ex_bidi =
     \<lparr>handler_of = CSSAsset, path = ''site.css'', sources = [File ''/p/s.sass''], depends = [],
      spec_of = ex_spec\<lparr>bidi := True\<rparr>\<rparr>"

text \<open>
  A prereq asset that depends on one file, in the prereq phase, with the dependency and
  the output last modified in the same second.
\<close>

definition ex_dependent :: asset where
  "ex_dependent = (ex_binary ''gen.css'')\<lparr>depends := [''/p/a.css'']\<rparr>"

text \<open>The same asset with a dependency that is not there listed before the other.\<close>

definition ex_missing_first :: asset where
  "ex_missing_first = (ex_binary ''gen.css'')\<lparr>depends := [''/p/missing'', ''/p/a.css'']\<rparr>"

definition ex_equal_times :: state where
  "ex_equal_times =
     (ex_state [''/p/a.css'' \<mapsto> (7, ''a''), ''/p/gen.css'' \<mapsto> (7, ''g''),
                ''/p/assetgen.yaml'' \<mapsto> (1, ''c'')])\<lparr>prereq := True\<rparr>"

text \<open>
  An engine whose record file does not unpickle, with a prereq output that is newer than
  its dependency and than the config file.
\<close>

definition ex_unreadable :: state where
  "ex_unreadable =
     (ex_state [''/p/a.css'' \<mapsto> (3, ''a''), ''/p/gen.css'' \<mapsto> (7, ''g''),
                ''/p/assetgen.yaml'' \<mapsto> (1, ''c'')])\<lparr>data_file := Some (Unreadable ''junk'')\<rparr>"

section \<open>Unfolding sets for the instances\<close>

text \<open>The definitions an instance is evaluated with, collected once.\<close>

lemmas ex_defs = ex_env_def ex_spec_def ex_conf_def ex_state_def ex_binary_def ex_css_def ex_built_def

lemmas eval_defs =
  run_def run_start_def is_fresh_def stale_against_def newer_def mtime_of_def stat_def log_def
  join_def startswith_def endswith_def isfile_def write_manifest_def dump_data_def print_def
  generate_asset_def

lemmas css_eval_defs =
  css_generate_def todo_def css_variant_def css_source_def embed_def match_embed_def dquote_def truthy_def
  convert_to_data_uri_def convert_to_url_def get_embed_file_def get_embed_url_def exit_def
  join_root_def read_def setdefault_def url_form_def data_uri_form_def py_str_def split_path_def
  rstrip_slash_def Let_def

lemmas emit_eval_defs =
  emit_def update_manifest_def generated_message_def write_file_def remove_def print_def log_def
  isfile_def add_to_def

lemmas path_eval_defs =
  versioned_path_def digest_of_def logical_path_def emit_filename_def split_path_def
  rstrip_slash_def splitext_def join_def startswith_def endswith_def Let_def

section \<open>Freshness: equal times are stale\<close>

lemma only_logs_refl: "only_logs S S"
  unfolding only_logs_def by (rule exI [of _ "[]"]) simp

lemma only_logs_trans: "only_logs S S1 \<Longrightarrow> only_logs S1 S2 \<Longrightarrow> only_logs S S2"
  unfolding only_logs_def by auto

lemma only_logs_log: "only_logs S (log e S)"
  unfolding only_logs_def log_def by blast

lemma only_logs_known: "only_logs S S' \<Longrightarrow> known_mtime S' p = known_mtime S p"
  unfolding only_logs_def known_mtime_def by (auto split: option.splits)

lemma only_logs_cache: "only_logs S S' \<Longrightarrow> mtime_cache S' = mtime_cache S"
  unfolding only_logs_def by auto

lemma mtime_of_fst:
  "fst (mtime_of (mtime_cache S) p S) = (case known_mtime S p of None \<Rightarrow> Inl (OSError p) | Some t \<Rightarrow> Inr t)"
  by (auto simp: mtime_of_def known_mtime_def stat_def split: option.splits)

lemma mtime_of_snd: "only_logs S (snd (mtime_of cch p S))"
  by (auto simp: mtime_of_def stat_def only_logs_log only_logs_refl split: option.splits)

lemma newer_snd: "only_logs S (snd (newer i out cch S))"
proof -
  have a: "only_logs S (snd (mtime_of cch i S))" by (rule mtime_of_snd)
  have b: "only_logs (snd (mtime_of cch i S)) (snd (mtime_of cch out (snd (mtime_of cch i S))))"
    by (rule mtime_of_snd)
  show ?thesis
    using a only_logs_trans [OF a b]
    by (auto simp: newer_def split: prod.splits sum.splits)
qed

lemma newer_fst:
  "fst (newer i out (mtime_cache S) S) =
     (case known_mtime S i of
        None \<Rightarrow> Inl (OSError i)
      | Some a \<Rightarrow> (case known_mtime S out of None \<Rightarrow> Inr True | Some b \<Rightarrow> Inr (b \<le> a)))"
proof -
  let ?S1 = "snd (mtime_of (mtime_cache S) i S)"
  have l: "only_logs S ?S1" by (rule mtime_of_snd)
  have c: "mtime_cache ?S1 = mtime_cache S" using l by (rule only_logs_cache)
  have k: "known_mtime ?S1 out = known_mtime S out" using l by (rule only_logs_known)
  have o: "fst (mtime_of (mtime_cache S) out ?S1) =
      (case known_mtime S out of None \<Rightarrow> Inl (OSError out) | Some t \<Rightarrow> Inr t)"
    using mtime_of_fst [of ?S1 out] by (simp add: c k)
  show ?thesis
    using mtime_of_fst [of S i] o
    by (auto simp: newer_def split: prod.splits sum.splits option.splits)
qed

lemma any_newer_snd: "only_logs S (snd (any_newer deps out S))"
proof (induction deps arbitrary: S)
  case Nil
  show ?case by (simp add: only_logs_refl)
next
  case (Cons dep deps)
  have a: "only_logs S (snd (newer dep out (mtime_cache S) S))" by (rule newer_snd)
  show ?case
    using a only_logs_trans [OF a Cons.IH [of "snd (newer dep out (mtime_cache S) S)"]]
    by (auto split: prod.splits sum.splits)
qed

lemma any_newer_stale:
  "d \<in> set deps \<Longrightarrow> known_mtime S d = Some a \<Longrightarrow> known_mtime S out = Some b \<Longrightarrow> b \<le> a
   \<Longrightarrow> fst (any_newer deps out S) \<noteq> Inr False"
proof (induction deps arbitrary: S)
  case Nil
  then show ?case by simp
next
  case (Cons dep deps)
  let ?S1 = "snd (newer dep out (mtime_cache S) S)"
  have l: "only_logs S ?S1" by (rule newer_snd)
  show ?case
  proof (cases "fst (newer dep out (mtime_cache S) S) = Inr False")
    case False
    then show ?thesis by (auto split: prod.splits sum.splits)
  next
    case True
    have "d \<noteq> dep"
      using True Cons.prems by (auto simp: newer_fst)
    then have "d \<in> set deps" using Cons.prems by simp
    then have "fst (any_newer deps out ?S1) \<noteq> Inr False"
      using Cons.IH [of ?S1] Cons.prems by (simp add: only_logs_known [OF l])
    then show ?thesis using True by (auto split: prod.splits sum.splits)
  qed
qed

lemma any_newer_returns:
  "list_all (\<lambda>x. known_mtime S x \<noteq> None) deps \<Longrightarrow> \<exists>r. fst (any_newer deps out S) = Inr r"
proof (induction deps arbitrary: S)
  case Nil
  show ?case by auto
next
  case (Cons dep deps)
  let ?S1 = "snd (newer dep out (mtime_cache S) S)"
  have l: "only_logs S ?S1" by (rule newer_snd)
  have "\<exists>r. fst (newer dep out (mtime_cache S) S) = Inr r"
    using Cons.prems by (cases "known_mtime S out") (auto simp: newer_fst)
  then obtain r where r: "fst (newer dep out (mtime_cache S) S) = Inr r" ..
  have "list_all (\<lambda>x. known_mtime ?S1 x \<noteq> None) deps"
    using Cons.prems by (simp add: only_logs_known [OF l])
  then obtain r' where "fst (any_newer deps out ?S1) = Inr r'"
    using Cons.IH [of ?S1] by blast
  then show ?case using r by (auto split: prod.splits sum.splits)
qed


lemma stale_against_snd: "only_logs S (snd (stale_against c deps out S))"
proof -
  let ?S1 = "snd (any_newer deps out S)"
  have a: "only_logs S ?S1" by (rule any_newer_snd)
  have b: "only_logs ?S1 (snd (newer (config_path c) out (mtime_cache ?S1) ?S1))" by (rule newer_snd)
  show ?thesis
    using a only_logs_trans [OF a b]
    by (auto simp: stale_against_def split: prod.splits sum.splits)
qed

lemma stale_against_stale:
  assumes "d \<in> set deps \<or> d = config_path c"
      and "known_mtime S d = Some a" and "known_mtime S out = Some b" and "b \<le> a"
  shows "fst (stale_against c deps out S) \<noteq> Inr False"
proof (cases "fst (any_newer deps out S) = Inr False")
  case False
  then show ?thesis by (auto simp: stale_against_def split: prod.splits sum.splits)
next
  case True
  let ?S1 = "snd (any_newer deps out S)"
  have l: "only_logs S ?S1" by (rule any_newer_snd)
  have "d \<notin> set deps" using True any_newer_stale [of d deps S a out b] assms by auto
  then have d: "d = config_path c" using assms by simp
  have "fst (newer (config_path c) out (mtime_cache ?S1) ?S1) = Inr True"
    using assms d by (simp add: newer_fst only_logs_known [OF l])
  then show ?thesis using True by (auto simp: stale_against_def split: prod.splits sum.splits)
qed

lemma stale_against_returns:
  assumes "list_all (\<lambda>x. known_mtime S x \<noteq> None) deps" and "known_mtime S (config_path c) \<noteq> None"
  shows "\<exists>r. fst (stale_against c deps out S) = Inr r"
proof -
  let ?S1 = "snd (any_newer deps out S)"
  have l: "only_logs S ?S1" by (rule any_newer_snd)
  obtain r where r: "fst (any_newer deps out S) = Inr r"
    using any_newer_returns [OF assms(1)] by blast
  have "\<exists>r'. fst (newer (config_path c) out (mtime_cache ?S1) ?S1) = Inr r'"
    using assms(2) by (cases "known_mtime S out") (auto simp: newer_fst only_logs_known [OF l])
  then show ?thesis using r by (auto simp: stale_against_def split: prod.splits sum.splits)
qed

lemma is_fresh_not_fresh:
  assumes "fst (stale_against c deps (compared_output E c key S) S) \<noteq> Inr False"
  shows "fst (is_fresh E c key deps S) \<noteq> Inr True"
proof (cases "prereq S")
  case True
  then show ?thesis
    using assms
    by (auto simp: is_fresh_def compared_output_def Let_def split: prod.splits sum.splits)
next
  case False
  then show ?thesis
    using assms
    by (cases "output_data S key")
       (auto simp: is_fresh_def compared_output_def Let_def split: prod.splits sum.splits)
qed

lemma is_fresh_stale:
  assumes "fst (stale_against c deps (compared_output E c key S) S) = Inr True"
  shows "fst (is_fresh E c key deps S) = Inr False"
proof (cases "prereq S")
  case True
  then show ?thesis
    using assms
    by (auto simp: is_fresh_def compared_output_def Let_def split: prod.splits sum.splits)
next
  case False
  then show ?thesis
    using assms
    by (cases "output_data S key")
       (auto simp: is_fresh_def compared_output_def Let_def split: prod.splits sum.splits)
qed

lemma newer_result:
  "(\<exists>r. fst (newer i out (mtime_cache S) S) = Inr r)
   \<or> (known_mtime S i = None \<and> fst (newer i out (mtime_cache S) S) = Inl (OSError i))"
  by (cases "known_mtime S i"; cases "known_mtime S out") (auto simp: newer_fst)

lemma any_newer_result:
  "(\<exists>r. fst (any_newer deps out S) = Inr r)
   \<or> (\<exists>p\<in>set deps. known_mtime S p = None \<and> fst (any_newer deps out S) = Inl (OSError p))"
proof (induction deps arbitrary: S)
  case Nil
  show ?case by auto
next
  case (Cons dep deps)
  let ?S1 = "snd (newer dep out (mtime_cache S) S)"
  have l: "only_logs S ?S1" by (rule newer_snd)
  show ?case
    using newer_result [of dep out S] Cons.IH [of ?S1]
    by (auto simp: only_logs_known [OF l] split: prod.splits sum.splits)
qed

lemma stale_against_result:
  assumes "d \<in> set deps \<or> d = config_path c"
      and "known_mtime S d = Some a" and "known_mtime S out = Some b" and "b \<le> a"
  shows "fst (stale_against c deps out S) = Inr True
       \<or> (\<exists>p\<in>set deps. known_mtime S p = None \<and> fst (stale_against c deps out S) = Inl (OSError p))"
proof -
  let ?S1 = "snd (any_newer deps out S)"
  have l: "only_logs S ?S1" by (rule any_newer_snd)
  have n: "fst (stale_against c deps out S) \<noteq> Inr False" using assms by (rule stale_against_stale)
  show ?thesis
  proof (cases "fst (any_newer deps out S) = Inr False")
    case False
    then show ?thesis
      using any_newer_result [of deps out S] n
      by (auto simp: stale_against_def split: prod.splits sum.splits)
  next
    case True
    have "d \<notin> set deps" using True any_newer_stale [of d deps S a out b] assms by auto
    then have d: "d = config_path c" using assms by simp
    have "fst (newer (config_path c) out (mtime_cache ?S1) ?S1) = Inr True"
      using assms d by (simp add: newer_fst only_logs_known [OF l])
    then show ?thesis using True by (auto simp: stale_against_def split: prod.splits sum.splits)
  qed
qed

lemma any_newer_prefix:
  "d \<in> set deps \<Longrightarrow> known_mtime S d = Some a \<Longrightarrow> known_mtime S out = Some b \<Longrightarrow> b \<le> a
   \<Longrightarrow> list_all (\<lambda>x. known_mtime S x \<noteq> None) (takeWhile (\<lambda>x. x \<noteq> d) deps)
   \<Longrightarrow> fst (any_newer deps out S) = Inr True"
proof (induction deps arbitrary: S)
  case Nil
  then show ?case by simp
next
  case (Cons dep deps)
  let ?S1 = "snd (newer dep out (mtime_cache S) S)"
  have l: "only_logs S ?S1" by (rule newer_snd)
  show ?case
  proof (cases "dep = d")
    case True
    then have "fst (newer dep out (mtime_cache S) S) = Inr True"
      using Cons.prems by (simp add: newer_fst)
    then show ?thesis by (auto split: prod.splits sum.splits)
  next
    case False
    then have k: "known_mtime S dep \<noteq> None" using Cons.prems by simp
    then obtain r where r: "fst (newer dep out (mtime_cache S) S) = Inr r"
      using newer_result [of dep out S] by auto
    have "d \<in> set deps" using False Cons.prems by auto
    moreover have "list_all (\<lambda>x. known_mtime ?S1 x \<noteq> None) (takeWhile (\<lambda>x. x \<noteq> d) deps)"
      using False Cons.prems by (simp add: only_logs_known [OF l])
    ultimately have "fst (any_newer deps out ?S1) = Inr True"
      using Cons.IH [of ?S1] Cons.prems by (simp add: only_logs_known [OF l])
    then show ?thesis using r by (auto split: prod.splits sum.splits)
  qed
qed

lemma stale_against_prefix:
  assumes "d \<in> set deps \<or> d = config_path c"
      and "known_mtime S d = Some a" and "known_mtime S out = Some b" and "b \<le> a"
      and "list_all (\<lambda>x. known_mtime S x \<noteq> None) (takeWhile (\<lambda>x. x \<noteq> d) deps)"
  shows "fst (stale_against c deps out S) = Inr True"
proof (cases "d \<in> set deps")
  case True
  then have "fst (any_newer deps out S) = Inr True"
    using assms by (simp add: any_newer_prefix)
  then show ?thesis by (auto simp: stale_against_def split: prod.splits sum.splits)
next
  case False
  then have tw: "takeWhile (\<lambda>x. x \<noteq> d) deps = deps" by (auto simp: takeWhile_eq_all_conv)
  have "list_all (\<lambda>x. known_mtime S x \<noteq> None) deps" using assms(5) unfolding tw .
  then obtain r where r: "fst (any_newer deps out S) = Inr r"
    using any_newer_returns by blast
  let ?S1 = "snd (any_newer deps out S)"
  have l: "only_logs S ?S1" by (rule any_newer_snd)
  have d: "d = config_path c" using False assms(1) by simp
  have "fst (newer (config_path c) out (mtime_cache ?S1) ?S1) = Inr True"
    using assms d by (simp add: newer_fst only_logs_known [OF l])
  then show ?thesis using r by (auto simp: stale_against_def split: prod.splits sum.splits)
qed

lemma is_fresh_raises:
  assumes "fst (stale_against c deps (compared_output E c key S) S) = Inl e"
  shows "fst (is_fresh E c key deps S) = Inr False \<or> fst (is_fresh E c key deps S) = Inl e"
proof (cases "prereq S")
  case True
  then show ?thesis
    using assms
    by (auto simp: is_fresh_def compared_output_def Let_def split: prod.splits sum.splits)
next
  case False
  then show ?thesis
    using assms
    by (cases "output_data S key")
       (auto simp: is_fresh_def compared_output_def Let_def split: prod.splits sum.splits)
qed

lemma ex_equal_known:
  "known_mtime ex_equal_times ''/p/a.css'' = Some 7"
  "known_mtime ex_equal_times ''/p/missing'' = None"
  "known_mtime ex_equal_times (compared_output ex_env (ex_conf ps []) ''gen.css'' ex_equal_times) = Some 7"
  "compared_output ex_env (ex_conf ps []) ''gen.css'' ex_equal_times = ''/p/gen.css''"
  "mtime_cache ex_equal_times = Map.empty"
  by (simp_all add: known_mtime_def compared_output_def ex_equal_times_def ex_state_def ex_conf_def
        join_def startswith_def endswith_def)

text \<open>
  C2.  A dependency, or the config file, whose modification time is greater than or
  equal to that of the output the check compares against makes \<open>newer\<close> answer yes, so
  \<open>is_fresh\<close> never answers fresh: equal times are on the stale side.  It answers stale
  when every dependency listed before that one (every dependency, when it is the config
  file) can be examined; in any case it either answers stale or raises the
  \<^verbatim>\<open>OSError\<close> of a dependency that cannot be examined.  An asset found stale is
  generated next; when the check raises, the loop over the assets ends with that error
  and the asset is not generated.
\<close>

theorem equal_mtime_counts_as_stale:
  assumes "d \<in> set deps \<or> d = config_path c"
      and "known_mtime S d = Some a"
      and "known_mtime S (compared_output E c key S) = Some b"
      and "b \<le> a"
  shows "fst (newer d (compared_output E c key S) (mtime_cache S) S) = Inr True
       \<and> fst (is_fresh E c key deps S) \<noteq> Inr True
       \<and> (list_all (\<lambda>x. known_mtime S x \<noteq> None) (takeWhile (\<lambda>x. x \<noteq> d) deps)
            \<longrightarrow> fst (is_fresh E c key deps S) = Inr False)
       \<and> (fst (is_fresh E c key deps S) = Inr False
          \<or> (\<exists>p\<in>set deps. known_mtime S p = None
                 \<and> fst (is_fresh E c key deps S) = Inl (OSError p)))
       \<and> (key = path asset \<and> deps = depends asset \<and> fst (is_fresh E c key deps S) = Inr False
            \<longrightarrow> run_assets E c (asset # rest) change S
                  = (case generate_asset E c asset (snd (is_fresh E c key deps S)) of
                       (Inl e, S2) \<Rightarrow> (Inl e, S2)
                     | (Inr u, S2) \<Rightarrow> run_assets E c rest True S2))
       \<and> (key = path asset \<and> deps = depends asset \<and> fst (is_fresh E c key deps S) = Inl err
            \<longrightarrow> run_assets E c (asset # rest) change S = (Inl err, snd (is_fresh E c key deps S)))"
proof (intro conjI impI)
  show "fst (newer d (compared_output E c key S) (mtime_cache S) S) = Inr True"
    using assms by (simp add: newer_fst)
next
  have "fst (stale_against c deps (compared_output E c key S) S) \<noteq> Inr False"
    using assms by (rule stale_against_stale)
  then show "fst (is_fresh E c key deps S) \<noteq> Inr True"
    by (rule is_fresh_not_fresh)
next
  assume "list_all (\<lambda>x. known_mtime S x \<noteq> None) (takeWhile (\<lambda>x. x \<noteq> d) deps)"
  with assms have "fst (stale_against c deps (compared_output E c key S) S) = Inr True"
    by (rule stale_against_prefix)
  then show "fst (is_fresh E c key deps S) = Inr False"
    by (rule is_fresh_stale)
next
  show "fst (is_fresh E c key deps S) = Inr False
          \<or> (\<exists>p\<in>set deps. known_mtime S p = None
                 \<and> fst (is_fresh E c key deps S) = Inl (OSError p))"
    using stale_against_result [OF assms]
  proof
    assume "fst (stale_against c deps (compared_output E c key S) S) = Inr True"
    then show ?thesis by (simp add: is_fresh_stale)
  next
    assume "\<exists>p\<in>set deps. known_mtime S p = None
              \<and> fst (stale_against c deps (compared_output E c key S) S) = Inl (OSError p)"
    then obtain p where p: "p \<in> set deps" "known_mtime S p = None"
        "fst (stale_against c deps (compared_output E c key S) S) = Inl (OSError p)"
      by blast
    show ?thesis using is_fresh_raises [OF p(3)] p(1,2) by blast
  qed
next
  assume "key = path asset \<and> deps = depends asset \<and> fst (is_fresh E c key deps S) = Inr False"
  then show "run_assets E c (asset # rest) change S
               = (case generate_asset E c asset (snd (is_fresh E c key deps S)) of
                    (Inl e, S2) \<Rightarrow> (Inl e, S2)
                  | (Inr u, S2) \<Rightarrow> run_assets E c rest True S2)"
    by (cases "is_fresh E c key deps S") (auto split: prod.splits sum.splits)
next
  assume "key = path asset \<and> deps = depends asset \<and> fst (is_fresh E c key deps S) = Inl err"
  then show "run_assets E c (asset # rest) change S = (Inl err, snd (is_fresh E c key deps S))"
    by (cases "is_fresh E c key deps S") (auto split: prod.splits sum.splits)
qed

text \<open>
  The instance: one dependency as old as the output gives stale and the asset is
  generated; with a dependency that is not there listed first, the check raises.
\<close>

theorem equal_mtime_counts_as_stale_witness:
  "fst (newer ''/p/a.css'' ''/p/gen.css'' Map.empty ex_equal_times) = Inr True
   \<and> fst (is_fresh ex_env (ex_conf [ex_dependent] []) ''gen.css'' [''/p/a.css''] ex_equal_times) = Inr False
   \<and> run_assets ex_env (ex_conf [ex_dependent] []) [ex_dependent] False ex_equal_times
       = (case generate_asset ex_env (ex_conf [ex_dependent] []) ex_dependent
                 (snd (is_fresh ex_env (ex_conf [ex_dependent] []) ''gen.css'' [''/p/a.css''] ex_equal_times)) of
            (Inl e, S2) \<Rightarrow> (Inl e, S2)
          | (Inr u, S2) \<Rightarrow> run_assets ex_env (ex_conf [ex_dependent] []) [] True S2)
   \<and> fst (is_fresh ex_env (ex_conf [ex_missing_first] []) ''gen.css'' [''/p/missing'', ''/p/a.css'']
             ex_equal_times) = Inl (OSError ''/p/missing'')
   \<and> fst (run_assets ex_env (ex_conf [ex_missing_first] []) [ex_missing_first] False ex_equal_times)
       = Inl (OSError ''/p/missing'')"
proof -
  have d: "''/p/a.css'' \<in> set [''/p/a.css''] \<or> ''/p/a.css'' = config_path (ex_conf [ex_dependent] [])"
    by simp
  have d2: "''/p/a.css'' \<in> set [''/p/missing'', ''/p/a.css'']
              \<or> ''/p/a.css'' = config_path (ex_conf [ex_missing_first] [])"
    by simp
  have le: "(7::int) \<le> 7" by simp
  have pd: "''gen.css'' = path ex_dependent" "[''/p/a.css''] = depends ex_dependent"
    by (simp_all add: ex_dependent_def ex_binary_def)
  have pm: "''gen.css'' = path ex_missing_first"
      "[''/p/missing'', ''/p/a.css''] = depends ex_missing_first"
    by (simp_all add: ex_missing_first_def ex_binary_def)
  have e: "fst (is_fresh ex_env (ex_conf [ex_missing_first] []) ''gen.css'' [''/p/missing'', ''/p/a.css'']
                  ex_equal_times) = Inl (OSError ''/p/missing'')"
    by (simp add: ex_equal_times_def ex_defs eval_defs)
  note t1 = equal_mtime_counts_as_stale
              [OF d ex_equal_known(1) ex_equal_known(3) le,
               where asset = ex_dependent and rest = "[]" and change = False]
  note t2 = equal_mtime_counts_as_stale
              [OF d2 ex_equal_known(1) ex_equal_known(3) le,
               where asset = ex_missing_first and rest = "[]" and change = False
                 and err = "OSError ''/p/missing''"]
  have n: "fst (newer ''/p/a.css'' ''/p/gen.css'' Map.empty ex_equal_times) = Inr True"
    using t1 by (simp add: ex_equal_known)
  have f: "fst (is_fresh ex_env (ex_conf [ex_dependent] []) ''gen.css'' [''/p/a.css''] ex_equal_times)
             = Inr False"
    using t1 by simp
  have g: "run_assets ex_env (ex_conf [ex_dependent] []) [ex_dependent] False ex_equal_times
       = (case generate_asset ex_env (ex_conf [ex_dependent] []) ex_dependent
                 (snd (is_fresh ex_env (ex_conf [ex_dependent] []) ''gen.css'' [''/p/a.css''] ex_equal_times)) of
            (Inl e, S2) \<Rightarrow> (Inl e, S2)
          | (Inr u, S2) \<Rightarrow> run_assets ex_env (ex_conf [ex_dependent] []) [] True S2)"
    using t1 pd f by blast
  have r: "run_assets ex_env (ex_conf [ex_missing_first] []) [ex_missing_first] False ex_equal_times
             = (Inl (OSError ''/p/missing''),
                snd (is_fresh ex_env (ex_conf [ex_missing_first] []) ''gen.css''
                       [''/p/missing'', ''/p/a.css''] ex_equal_times))"
    using t2 pm e by blast
  show ?thesis using n f g e r by simp
qed

text \<open>
  C2 as stated fails when a dependency that cannot be examined is listed before the one
  with the equal time: \<^verbatim>\<open>stat\<close> raises out of \<^verbatim>\<open>newer\<close>, \<^verbatim>\<open>is_fresh\<close> and \<^verbatim>\<open>run\<close>, the
  check does not answer stale and nothing is generated.
\<close>

theorem missing_dependency_raises_despite_equal_times:
  "''/p/a.css'' \<in> set (depends ex_missing_first)
   \<and> known_mtime ex_equal_times ''/p/a.css'' = Some 7
   \<and> known_mtime ex_equal_times
         (compared_output ex_env (ex_conf [ex_missing_first] []) (path ex_missing_first) ex_equal_times)
       = Some 7
   \<and> fst (is_fresh ex_env (ex_conf [ex_missing_first] []) (path ex_missing_first)
             (depends ex_missing_first) ex_equal_times) = Inl (OSError ''/p/missing'')
   \<and> fst (run ex_env (ex_conf [ex_missing_first] []) ex_equal_times) = Inl (OSError ''/p/missing'')
   \<and> trace (snd (run ex_env (ex_conf [ex_missing_first] []) ex_equal_times)) = [Stat ''/p/missing'']
   \<and> files (snd (run ex_env (ex_conf [ex_missing_first] []) ex_equal_times)) = files ex_equal_times"
  by (simp add: ex_missing_first_def ex_equal_times_def known_mtime_def compared_output_def
        ex_defs eval_defs)

section \<open>Emission keeps one live artifact per logical path\<close>


















section \<open>What generation leaves alone\<close>

lemma quiet_refl: "quiet S S"
  by (simp add: quiet_def)

lemma quiet_trans: "quiet S S1 \<Longrightarrow> quiet S1 S2 \<Longrightarrow> quiet S S2"
  by (auto simp: quiet_def)

lemma quiet_log: "\<not> persist_event e \<Longrightarrow> quiet S (log e S)"
  by (simp add: quiet_def log_def)

lemma quiet_stat: "stat p S = (r, S') \<Longrightarrow> quiet S S'"
  by (auto simp: stat_def quiet_def log_def persist_event_def split: option.splits)

lemma quiet_read: "read p S = (r, S') \<Longrightarrow> quiet S S'"
  by (auto simp: read_def quiet_def log_def persist_event_def split: option.splits)

lemma quiet_write_file: "quiet S (write_file p content S)"
  by (simp add: write_file_def quiet_def log_def persist_event_def)

lemma quiet_remove: "quiet S (remove p S)"
  by (simp add: remove_def quiet_def log_def persist_event_def)

lemma quiet_print: "quiet S (print s S)"
  by (simp add: print_def quiet_def log_def persist_event_def)

lemma quiet_exit: "exit msg S = (r, S') \<Longrightarrow> quiet S S'"
  by (auto simp: exit_def quiet_print)

lemma quiet_mtime_of: "mtime_of cch p S = (r, S') \<Longrightarrow> quiet S S'"
  by (auto simp: mtime_of_def quiet_refl split: option.splits dest: quiet_stat)

lemma quiet_newer: "newer i out cch S = (r, S') \<Longrightarrow> quiet S S'"
  by (auto simp: newer_def split: prod.splits sum.splits dest!: quiet_mtime_of intro: quiet_trans)

lemma quiet_any_newer: "any_newer deps out S = (r, S') \<Longrightarrow> quiet S S'"
  by (induction deps arbitrary: S)
     (auto simp: quiet_refl split: prod.splits sum.splits if_splits dest!: quiet_newer intro: quiet_trans)

lemma quiet_stale_against: "stale_against c deps out S = (r, S') \<Longrightarrow> quiet S S'"
  by (auto simp: stale_against_def split: prod.splits sum.splits if_splits
           dest!: quiet_newer quiet_any_newer intro: quiet_trans)

lemma quiet_prereq_data: "quiet S (S\<lparr>prereq_data := x\<rparr>)"
  by (simp add: quiet_def)

lemma quiet_output_data: "quiet S (S\<lparr>output_data := x\<rparr>)"
  by (simp add: quiet_def)

lemma quiet_is_fresh: "is_fresh E c key deps S = (r, S') \<Longrightarrow> quiet S S'"
  by (auto simp: is_fresh_def Let_def quiet_refl quiet_prereq_data quiet_output_data
           split: prod.splits sum.splits if_splits option.splits
           dest!: quiet_stale_against intro: quiet_trans quiet_prereq_data quiet_output_data)


lemma quiet_update_manifest: "quiet S (update_manifest c lp v S)"
  by (auto simp: update_manifest_def Let_def quiet_def print_def remove_def log_def persist_event_def
           split: option.splits)

lemma quiet_emit: "quiet S (emit E c key p content ext S)"
proof -
  have a: "quiet S (write_file q content S)" for q by (rule quiet_write_file)
  show ?thesis
    unfolding emit_def Let_def
    by (auto intro!: quiet_trans [OF a] quiet_trans [OF _ quiet_update_manifest]
                     quiet_trans [OF _ quiet_print] quiet_prereq_data quiet_output_data)
qed

lemma quiet_setdefault: "setdefault p v S = (r, S') \<Longrightarrow> quiet S S'"
  by (auto simp: setdefault_def quiet_def split: option.splits)

lemma quiet_after_print: "quiet (print s S1) S2 \<Longrightarrow> quiet S1 S2"
  using quiet_print quiet_trans by blast

lemma quiet_get_embed_file: "get_embed_file E c a p S = (r, S') \<Longrightarrow> quiet S S'"
  by (auto simp: get_embed_file_def quiet_refl split: prod.splits sum.splits if_splits option.splits
           dest!: quiet_read quiet_setdefault quiet_after_print intro: quiet_trans)

lemma quiet_convert_to_data_uri: "convert_to_data_uri E c a p S = (r, S') \<Longrightarrow> quiet S S'"
  by (auto simp: convert_to_data_uri_def Let_def
           split: prod.splits sum.splits if_splits option.splits
           dest!: quiet_get_embed_file quiet_exit)

lemma quiet_convert_to_url: "convert_to_url E c a p S = (r, S') \<Longrightarrow> quiet S S'"
  by (auto simp: convert_to_url_def split: prod.splits sum.splits if_splits
           dest!: quiet_get_embed_file)

lemma quiet_sub_embeds:
  "(\<And>p S r S'. f p S = (r, S') \<Longrightarrow> quiet S S') \<Longrightarrow> sub_embeds f content S = (r, S') \<Longrightarrow> quiet S S'"
proof (induction f content S arbitrary: r S' rule: sub_embeds.induct)
  case (1 f S)
  then show ?case by (simp add: quiet_refl)
next
  case (2 f x xs S)
  show ?case
  proof (cases "match_embed (x # xs)")
    case None
    obtain r2 S2 where r2: "sub_embeds f xs S = (r2, S2)" by (cases "sub_embeds f xs S")
    have "quiet S S2" using "2.IH"(1) [OF None _ r2] "2.prems"(1) by blast
    then show ?thesis
      using "2.prems"(2) None r2 by (auto split: sum.splits)
  next
    case (Some m)
    obtain p rest where m: "m = (p, rest)" by (cases m)
    obtain r1 S1 where r1: "f p S = (r1, S1)" by (cases "f p S")
    have q1: "quiet S S1" using r1 "2.prems"(1) by blast
    show ?thesis
    proof (cases r1)
      case (Inl e)
      then show ?thesis using Some m r1 q1 "2.prems"(2) by simp
    next
      case (Inr t)
      obtain r2 S2 where r2: "sub_embeds f rest S1 = (r2, S2)" by (cases "sub_embeds f rest S1")
      have "quiet S1 S2"
        using "2.IH"(2) [OF Some m [symmetric] r1 [symmetric] Inr _ r2] "2.prems"(1)
        by blast
      then have "quiet S S2" using q1 quiet_trans by blast
      then show ?thesis
        using Some m r1 Inr r2 "2.prems"(2) by (auto split: sum.splits)
    qed
  qed
qed


lemma quiet_embed:
  "(\<And>p S r S'. f p S = (r, S') \<Longrightarrow> quiet S S') \<Longrightarrow> embed f content S = (r, S') \<Longrightarrow> quiet S S'"
proof -
  assume f: "\<And>p S r S'. f p S = (r, S') \<Longrightarrow> quiet S S'" and e: "embed f content S = (r, S')"
  obtain r1 S1 where r1: "sub_embeds f content S = (r1, S1)" by (cases "sub_embeds f content S")
  have q: "quiet S S1" using f r1 by (rule quiet_sub_embeds)
  have "quiet S1 (S1\<lparr>first := False\<rparr>)" by (simp add: quiet_def)
  then have "quiet S (S1\<lparr>first := False\<rparr>)" using q quiet_trans by blast
  then show "quiet S S'" using e r1 q by (auto simp: embed_def split: sum.splits)
qed

lemma quiet_do_cmd: "do_cmd E args S = (r, S') \<Longrightarrow> quiet S S'"
  by (auto simp: do_cmd_def Let_def quiet_def log_def persist_event_def split: prod.splits if_splits)

lemma quiet_rmtree: "quiet S (rmtree td S)"
  by (simp add: rmtree_def quiet_def log_def persist_event_def)

lemma quiet_before_rmtree: "quiet S S1 \<Longrightarrow> quiet S (rmtree td S1)"
  using quiet_rmtree quiet_trans by blast

lemma quiet_after_write_file: "quiet (write_file p content S1) S2 \<Longrightarrow> quiet S1 S2"
  using quiet_write_file quiet_trans by blast

lemma quiet_stylus: "stylus E a src S = (r, S') \<Longrightarrow> quiet S S'"
  by (auto simp: stylus_def Let_def split: prod.splits sum.splits
           dest!: quiet_read quiet_do_cmd quiet_after_write_file
           intro!: quiet_before_rmtree intro: quiet_trans)

lemma quiet_css_source: "css_source E a b src S = (r, S') \<Longrightarrow> quiet S S'"
  by (auto simp: css_source_def quiet_refl split: source.splits if_splits
           dest!: quiet_read quiet_do_cmd quiet_stylus)

lemma quiet_css_sources: "css_sources E a b srcs S = (r, S') \<Longrightarrow> quiet S S'"
  by (induction srcs arbitrary: S r S')
     (auto simp: quiet_refl split: prod.splits sum.splits dest!: quiet_css_source intro: quiet_trans)

lemma quiet_before_emit: "quiet S S1 \<Longrightarrow> quiet S (emit E c key p content ext S1)"
  using quiet_emit quiet_trans by blast

lemma quiet_after_emit: "quiet (emit E c key p content ext S1) S2 \<Longrightarrow> quiet S1 S2"
  using quiet_emit quiet_trans by blast

lemma quiet_embed_url: "embed (convert_to_url E c a) content S = (r, S') \<Longrightarrow> quiet S S'"
  using quiet_embed [of "convert_to_url E c a"] quiet_convert_to_url by blast

lemma quiet_embed_data_uri: "embed (convert_to_data_uri E c a) content S = (r, S') \<Longrightarrow> quiet S S'"
  using quiet_embed [of "convert_to_data_uri E c a"] quiet_convert_to_data_uri by blast

lemma quiet_css_variant: "css_variant E c a b S = (r, S') \<Longrightarrow> quiet S S'"
  by (auto simp: css_variant_def Let_def split: prod.splits sum.splits if_splits
           dest!: quiet_css_sources quiet_embed_url quiet_embed_data_uri quiet_after_emit
           intro!: quiet_before_emit intro: quiet_trans)

lemma quiet_css_variants: "css_variants E c a bs S = (r, S') \<Longrightarrow> quiet S S'"
  by (induction bs arbitrary: S r S')
     (auto simp: quiet_refl split: prod.splits sum.splits if_splits
           dest!: quiet_css_variant intro: quiet_trans)

lemma quiet_css_generate: "css_generate E c a S = (r, S') \<Longrightarrow> quiet S S'"
proof -
  assume g: "css_generate E c a S = (r, S')"
  have "quiet S (S\<lparr>first := True, cache := Map.empty\<rparr>)" by (simp add: quiet_def)
  moreover have "quiet (S\<lparr>first := True, cache := Map.empty\<rparr>) S'"
    using g quiet_css_variants unfolding css_generate_def by blast
  ultimately show ?thesis using quiet_trans by blast
qed

lemma quiet_read_source: "read_source src S = (r, S') \<Longrightarrow> quiet S S'"
  by (auto simp: read_source_def quiet_refl split: source.splits dest!: quiet_read)

lemma quiet_read_sources: "read_sources srcs S = (r, S') \<Longrightarrow> quiet S S'"
  by (induction srcs arbitrary: S r S')
     (auto simp: quiet_refl split: prod.splits sum.splits dest!: quiet_read_source intro: quiet_trans)

lemma quiet_binary_generate: "binary_generate E c a S = (r, S') \<Longrightarrow> quiet S S'"
  by (auto simp: binary_generate_def split: prod.splits sum.splits
           dest!: quiet_read_sources intro!: quiet_before_emit)

lemma quiet_js_source: "js_source E a src S = (r, S') \<Longrightarrow> quiet S S'"
  by (auto simp: js_source_def quiet_refl split: source.splits if_splits
           dest!: quiet_read quiet_do_cmd)

lemma quiet_js_sources: "js_sources E a srcs S = (r, S') \<Longrightarrow> quiet S S'"
  by (induction srcs arbitrary: S r S')
     (auto simp: quiet_refl split: prod.splits sum.splits dest!: quiet_js_source intro: quiet_trans)

lemma quiet_after_log: "\<not> persist_event e \<Longrightarrow> quiet (log e S1) S2 \<Longrightarrow> quiet S1 S2"
  using quiet_log quiet_trans by blast

lemma quiet_js_generate: "js_generate E c a S = (r, S') \<Longrightarrow> quiet S S'"
proof -
  assume g: "js_generate E c a S = (r, S')"
  obtain r1 S1 where r1: "js_sources E a (sources a) S = (r1, S1)"
    by (cases "js_sources E a (sources a) S")
  have q1: "quiet S S1" using r1 by (rule quiet_js_sources)
  have l: "quiet S1 (log (Ran cmd) S1)" for cmd by (simp add: quiet_log persist_event_def)
  have "quiet S1 S'"
    using g r1 l
    by (auto simp: js_generate_def Let_def quiet_refl quiet_emit
             split: sum.splits if_splits prod.splits
             dest!: quiet_exit intro: quiet_trans quiet_before_emit)
  then show ?thesis using q1 quiet_trans by blast
qed

lemma quiet_generate_asset: "generate_asset E c a S = (r, S') \<Longrightarrow> quiet S S'"
  by (auto simp: generate_asset_def split: handler.splits
           dest: quiet_binary_generate quiet_css_generate quiet_js_generate)

lemma quiet_run_assets: "run_assets E c as ch S = (r, S') \<Longrightarrow> quiet S S'"
  by (induction as arbitrary: S ch r S')
     (auto simp: quiet_refl split: prod.splits sum.splits if_splits
           dest!: quiet_is_fresh quiet_generate_asset intro: quiet_trans)

section \<open>An aborted run persists nothing\<close>

lemma unpersisted_trans: "unpersisted S S1 \<Longrightarrow> unpersisted S1 S2 \<Longrightarrow> unpersisted S S2"
  by (auto simp: unpersisted_def)

lemma quiet_unpersisted: "quiet S S' \<Longrightarrow> unpersisted S S'"
  by (auto simp: quiet_def unpersisted_def)

lemma unpersisted_new_events:
  "unpersisted S S' \<Longrightarrow>
   manifest_file S' = manifest_file S \<and> data_file S' = data_file S
   \<and> take (length (trace S)) (trace S') = trace S \<and> filter persist_event (new_events S S') = []"
  by (auto simp: unpersisted_def new_events_def)

text \<open>
  C5.  When a run ends in an exception (the abort condition or any other), the manifest
  file and the durable record file hold what they held before the run, and the run has
  logged neither a manifest write nor a dump: both writes stand after the two loops.
\<close>

theorem aborted_run_persists_nothing:
  assumes "run E c S = (Inl e, S')"
  shows "manifest_file S' = manifest_file S \<and> data_file S' = data_file S
       \<and> take (length (trace S)) (trace S') = trace S
       \<and> filter persist_event (new_events S S') = []"
proof -
  obtain r1 S1 where r1: "run_assets E c (prereqs c) (virgin S) (run_start S) = (r1, S1)"
    by (cases "run_assets E c (prereqs c) (virgin S) (run_start S)")
  have u0: "unpersisted S (run_start S)" by (simp add: unpersisted_def run_start_def)
  have u1: "unpersisted S S1"
    using u0 quiet_unpersisted [OF quiet_run_assets [OF r1]] by (rule unpersisted_trans)
  have "unpersisted S S'"
  proof (cases r1)
    case (Inl e1)
    then show ?thesis using assms r1 u1 by (simp add: run_def)
  next
    case (Inr change1)
    obtain r2 S2 where r2: "run_assets E c (generate c) change1 (S1\<lparr>prereq := False\<rparr>) = (r2, S2)"
      by (cases "run_assets E c (generate c) change1 (S1\<lparr>prereq := False\<rparr>)")
    have "unpersisted S1 (S1\<lparr>prereq := False\<rparr>)" by (simp add: unpersisted_def)
    then have "unpersisted S1 S2"
      using quiet_unpersisted [OF quiet_run_assets [OF r2]] by (rule unpersisted_trans)
    then have u2: "unpersisted S S2" using u1 unpersisted_trans by blast
    show ?thesis
      using assms r1 Inr r2 u2 by (cases r2) (auto simp: run_def)
  qed
  then show ?thesis by (rule unpersisted_new_events)
qed

lemma ex_abort:
  "fst (run ex_env (ex_conf [] [ex_css ''sprite'']) (ex_state [''/p/assetgen.yaml'' \<mapsto> (1, ''c'')]))
     = Inl (AppExit (Some ''Could not detect the content type of: sprite''))"
  by (simp add: ex_defs eval_defs css_eval_defs)

theorem aborted_run_persists_nothing_witness:
  "fst (run ex_env (ex_conf [] [ex_css ''sprite'']) (ex_state [''/p/assetgen.yaml'' \<mapsto> (1, ''c'')]))
     = Inl (AppExit (Some ''Could not detect the content type of: sprite''))
   \<and> manifest_file (snd (run ex_env (ex_conf [] [ex_css ''sprite''])
                             (ex_state [''/p/assetgen.yaml'' \<mapsto> (1, ''c'')]))) = None
   \<and> data_file (snd (run ex_env (ex_conf [] [ex_css ''sprite''])
                         (ex_state [''/p/assetgen.yaml'' \<mapsto> (1, ''c'')]))) = None
   \<and> filter persist_event
        (new_events (ex_state [''/p/assetgen.yaml'' \<mapsto> (1, ''c'')])
           (snd (run ex_env (ex_conf [] [ex_css ''sprite''])
                   (ex_state [''/p/assetgen.yaml'' \<mapsto> (1, ''c'')])))) = []"
proof -
  let ?S = "ex_state [''/p/assetgen.yaml'' \<mapsto> (1, ''c'')]"
  let ?c = "ex_conf [] [ex_css ''sprite'']"
  have r: "run ex_env ?c ?S
             = (Inl (AppExit (Some ''Could not detect the content type of: sprite'')),
                snd (run ex_env ?c ?S))"
    using ex_abort by (simp add: prod_eq_iff)
  have n: "manifest_file ?S = None" "data_file ?S = None" by (simp_all add: ex_state_def)
  show ?thesis
    using aborted_run_persists_nothing [OF r] n ex_abort by simp
qed

section \<open>When the durable record is written\<close>

lemma agree_refl: "agree S S"
  unfolding agree_def by (rule exI [of _ "trace S"]) simp

lemma agree_sym: "agree S T \<Longrightarrow> agree T S"
  unfolding agree_def by (rule exI [of _ "trace S"]) auto

lemma agree_trans: "agree S T \<Longrightarrow> agree T U \<Longrightarrow> agree S U"
  unfolding agree_def by auto

lemma only_logs_agree: "only_logs S S' \<Longrightarrow> agree S S'"
  by (auto simp: only_logs_def agree_def)

lemma agree_known: "agree S T \<Longrightarrow> known_mtime T p = known_mtime S p"
  by (auto simp: known_mtime_def agree_def split: option.splits)

lemma agree_checks_times: "agree S T \<Longrightarrow> checks_times E c key T = checks_times E c key S"
  by (auto simp: checks_times_def agree_def isfile_def split: option.splits)

lemma agree_compared_output: "agree S T \<Longrightarrow> compared_output E c key T = compared_output E c key S"
  by (auto simp: compared_output_def agree_def)

lemma agree_upd_prereq: "agree S T \<Longrightarrow> agree (S\<lparr>prereq := b\<rparr>) (T\<lparr>prereq := b\<rparr>)"
  unfolding agree_def by (cases S) auto


lemma newer_agree:
  assumes "agree S T"
  shows "fst (newer i out (mtime_cache T) T) = fst (newer i out (mtime_cache S) S)"
  by (simp add: newer_fst agree_known [OF assms] split: option.splits)

lemma agree_after:
  assumes "agree S T" and "only_logs S S1" and "only_logs T T1"
  shows "agree S1 T1"
proof -
  have "agree S1 S" using assms(2) by (rule agree_sym [OF only_logs_agree])
  then have "agree S1 T" using assms(1) by (rule agree_trans)
  then show ?thesis using only_logs_agree [OF assms(3)] by (rule agree_trans)
qed

lemma newer_snd_agree:
  "agree S T \<Longrightarrow> agree (snd (newer i out (mtime_cache S) S)) (snd (newer i out (mtime_cache T) T))"
  by (rule agree_after [OF _ newer_snd newer_snd])

lemma any_newer_agree: "agree S T \<Longrightarrow> fst (any_newer deps out T) = fst (any_newer deps out S)"
proof (induction deps arbitrary: S T)
  case Nil
  show ?case by simp
next
  case (Cons dep deps)
  obtain r1 S1 where s: "newer dep out (mtime_cache S) S = (r1, S1)"
    by (cases "newer dep out (mtime_cache S) S")
  obtain r2 T1 where t: "newer dep out (mtime_cache T) T = (r2, T1)"
    by (cases "newer dep out (mtime_cache T) T")
  have f: "r2 = r1" using newer_agree [OF Cons.prems, of dep out] s t by simp
  have a: "agree S1 T1" using newer_snd_agree [OF Cons.prems, of dep out] s t by simp
  show ?case
  proof (cases r1)
    case (Inl e)
    then show ?thesis using s t f by simp
  next
    case (Inr b)
    then show ?thesis using s t f Cons.IH [OF a] by (cases b) simp_all
  qed
qed

lemma any_newer_snd_agree:
  "agree S T \<Longrightarrow> agree (snd (any_newer deps out S)) (snd (any_newer deps out T))"
  by (rule agree_after [OF _ any_newer_snd any_newer_snd])

lemma stale_against_agree:
  assumes "agree S T"
  shows "fst (stale_against c deps out T) = fst (stale_against c deps out S)"
proof -
  obtain r1 S1 where s: "any_newer deps out S = (r1, S1)" by (cases "any_newer deps out S")
  obtain r2 T1 where t: "any_newer deps out T = (r2, T1)" by (cases "any_newer deps out T")
  have f: "r2 = r1" using any_newer_agree [OF assms, of deps out] s t by simp
  have a: "agree S1 T1" using any_newer_snd_agree [OF assms, of deps out] s t by simp
  show ?thesis
  proof (cases r1)
    case (Inl e)
    then show ?thesis using s t f by (simp add: stale_against_def)
  next
    case (Inr b)
    then show ?thesis
      using s t f newer_agree [OF a, of "config_path c" out]
      by (cases b) (simp_all add: stale_against_def)
  qed
qed

lemma is_fresh_iff:
  "is_fresh E c key deps S = (Inr True, S') \<longleftrightarrow>
     checks_times E c key S \<and> stale_against c deps (compared_output E c key S) S = (Inr False, S')"
proof (cases "prereq S")
  case True
  then show ?thesis
    by (auto simp: is_fresh_def checks_times_def compared_output_def Let_def
             split: prod.splits sum.splits)
next
  case False
  then show ?thesis
    by (cases "output_data S key")
       (auto simp: is_fresh_def checks_times_def compared_output_def Let_def
             split: prod.splits sum.splits)
qed


lemma is_fresh_fresh_only_logs:
  assumes "is_fresh E c key deps S = (Inr True, S')"
  shows "only_logs S S'"
proof -
  have "stale_against c deps (compared_output E c key S) S = (Inr False, S')"
    using assms by (simp add: is_fresh_iff)
  then show ?thesis
    using stale_against_snd [of S c deps "compared_output E c key S"] by simp
qed

lemma is_fresh_fresh_agree:
  assumes "agree S T" and "fst (is_fresh E c key deps S) = Inr True"
  shows "fst (is_fresh E c key deps T) = Inr True"
proof -
  have "is_fresh E c key deps S = (Inr True, snd (is_fresh E c key deps S))"
    using assms(2) by (simp add: prod_eq_iff)
  then have s: "checks_times E c key S"
      "stale_against c deps (compared_output E c key S) S = (Inr False, snd (is_fresh E c key deps S))"
    by (simp_all add: is_fresh_iff)
  have "fst (stale_against c deps (compared_output E c key T) T) = Inr False"
    using stale_against_agree [OF assms(1), of c deps "compared_output E c key S"] s(2)
    by (simp add: agree_compared_output [OF assms(1)])
  then have "stale_against c deps (compared_output E c key T) T
               = (Inr False, snd (stale_against c deps (compared_output E c key T) T))"
    by (simp add: prod_eq_iff)
  moreover have "checks_times E c key T" using s(1) by (simp add: agree_checks_times [OF assms(1)])
  ultimately have "is_fresh E c key deps T
                     = (Inr True, snd (stale_against c deps (compared_output E c key T) T))"
    by (simp add: is_fresh_iff)
  then show ?thesis by simp
qed

lemma run_assets_all_fresh:
  "list_all (\<lambda>a. fst (is_fresh E c (path a) (depends a) S0) = Inr True) as \<Longrightarrow> agree S0 S
   \<Longrightarrow> \<exists>S'. run_assets E c as ch S = (Inr ch, S') \<and> only_logs S S'"
proof (induction as arbitrary: S)
  case Nil
  show ?case by (simp add: only_logs_refl)
next
  case (Cons a as)
  have "fst (is_fresh E c (path a) (depends a) S) = Inr True"
    using Cons.prems is_fresh_fresh_agree [of S0 S E c "path a" "depends a"] by simp
  then obtain S1 where s1: "is_fresh E c (path a) (depends a) S = (Inr True, S1)"
    by (cases "is_fresh E c (path a) (depends a) S") auto
  have l1: "only_logs S S1" using s1 by (rule is_fresh_fresh_only_logs)
  have "agree S0 S1" using Cons.prems(2) only_logs_agree [OF l1] by (rule agree_trans)
  then obtain S' where s': "run_assets E c as ch S1 = (Inr ch, S')" "only_logs S1 S'"
    using Cons.IH [of S1] Cons.prems(1) by auto
  have "only_logs S S'" using l1 s'(2) by (rule only_logs_trans)
  then show ?case using s1 s'(1) by simp
qed

lemma undumped_trans: "undumped S S1 \<Longrightarrow> undumped S1 S2 \<Longrightarrow> undumped S S2"
  by (auto simp: undumped_def)

lemma persist_free_dump_free: "filter persist_event es = [] \<Longrightarrow> filter dump_event es = []"
  by (induction es) (auto simp: persist_event_def dump_event_def split: event.splits if_splits)

lemma quiet_undumped: "quiet S S' \<Longrightarrow> undumped S S'"
  by (auto simp: quiet_def undumped_def dest: persist_free_dump_free)

lemma undumped_write_manifest: "undumped S (write_manifest c S)"
  by (auto simp: write_manifest_def undumped_def print_def log_def dump_event_def split: option.splits)

lemma undumped_new_events:
  "undumped S S' \<Longrightarrow> data_file S' = data_file S \<and> filter dump_event (new_events S S') = []"
  by (auto simp: undumped_def new_events_def)

text \<open>
  C6, as the code has it.  In a run that is not the engine's first, when every asset is
  found fresh the run completes, the durable record file keeps its content and no dump
  is logged.
\<close>

theorem later_run_with_all_fresh_skips_dump:
  assumes "\<not> virgin S"
      and "list_all (\<lambda>a. fst (is_fresh E c (path a) (depends a) (run_start S)) = Inr True) (prereqs c)"
      and "list_all (\<lambda>a. fst (is_fresh E c (path a) (depends a) ((run_start S)\<lparr>prereq := False\<rparr>)) = Inr True)
             (generate c)"
  shows "fst (run E c S) = Inr ()
       \<and> data_file (snd (run E c S)) = data_file S
       \<and> filter dump_event (new_events S (snd (run E c S))) = []"
proof -
  obtain S1 where s1: "run_assets E c (prereqs c) False (run_start S) = (Inr False, S1)"
      and l1: "only_logs (run_start S) S1"
    using run_assets_all_fresh [OF assms(2) agree_refl] by blast
  have "agree ((run_start S)\<lparr>prereq := False\<rparr>) (S1\<lparr>prereq := False\<rparr>)"
    using only_logs_agree [OF l1] by (rule agree_upd_prereq)
  then obtain S2 where s2: "run_assets E c (generate c) False (S1\<lparr>prereq := False\<rparr>) = (Inr False, S2)"
    using run_assets_all_fresh [OF assms(3)] by blast
  have r: "run E c S = (Inr (), write_manifest c S2)"
    using assms(1) s1 s2 by (simp add: run_def)
  have "undumped S (run_start S)" by (simp add: undumped_def run_start_def)
  then have "undumped S S1"
    using quiet_undumped [OF quiet_run_assets [OF s1]] by (rule undumped_trans)
  moreover have "undumped S1 (S1\<lparr>prereq := False\<rparr>)" by (simp add: undumped_def)
  ultimately have "undumped S (S1\<lparr>prereq := False\<rparr>)" by (rule undumped_trans)
  then have "undumped S S2"
    using quiet_undumped [OF quiet_run_assets [OF s2]] by (rule undumped_trans)
  then have "undumped S (write_manifest c S2)"
    using undumped_write_manifest by (rule undumped_trans)
  then show ?thesis using r undumped_new_events by simp
qed

theorem later_run_with_all_fresh_skips_dump_witness:
  "fst (run ex_env (ex_conf [] [ex_binary ''a.txt'']) (ex_built\<lparr>virgin := False\<rparr>)) = Inr ()
   \<and> data_file (snd (run ex_env (ex_conf [] [ex_binary ''a.txt'']) (ex_built\<lparr>virgin := False\<rparr>))) = None
   \<and> filter dump_event
        (new_events (ex_built\<lparr>virgin := False\<rparr>)
           (snd (run ex_env (ex_conf [] [ex_binary ''a.txt'']) (ex_built\<lparr>virgin := False\<rparr>)))) = []"
proof -
  have v: "\<not> virgin (ex_built\<lparr>virgin := False\<rparr>)" by simp
  have p: "list_all (\<lambda>a. fst (is_fresh ex_env (ex_conf [] [ex_binary ''a.txt'']) (path a) (depends a)
                                  (run_start (ex_built\<lparr>virgin := False\<rparr>))) = Inr True)
             (prereqs (ex_conf [] [ex_binary ''a.txt'']))"
    by (simp add: ex_conf_def)
  have g: "list_all (\<lambda>a. fst (is_fresh ex_env (ex_conf [] [ex_binary ''a.txt'']) (path a) (depends a)
                                  ((run_start (ex_built\<lparr>virgin := False\<rparr>))\<lparr>prereq := False\<rparr>)) = Inr True)
             (generate (ex_conf [] [ex_binary ''a.txt'']))"
    by (simp add: ex_defs eval_defs)
  have d: "data_file (ex_built\<lparr>virgin := False\<rparr>) = None" by (simp add: ex_defs)
  show ?thesis
    using later_run_with_all_fresh_skips_dump [OF v p g] d by simp
qed

text \<open>
  C6 as stated fails on the first run of an engine: \<^verbatim>\<open>run\<close> starts with
  \<^verbatim>\<open>change = True\<close> then, so the record is dumped although both freshness checks
  answered fresh and nothing was generated.
\<close>

theorem first_run_dumps_although_fresh:
  "fst (run ex_env (ex_conf [] [ex_binary ''a.txt'']) ex_built) = Inr ()
   \<and> trace (snd (run ex_env (ex_conf [] [ex_binary ''a.txt'']) ex_built))
       = [Stat ''/p/assetgen.yaml'', Stat ''/p/out/a.txt'', Dumped_data ''/tmp/assetgen-0/data'']"
  by (simp add: ex_defs eval_defs)

section \<open>The time cache\<close>

lemma mtime_cache_write_manifest: "mtime_cache (write_manifest c S) = mtime_cache S"
  by (simp add: write_manifest_def print_def log_def split: option.splits)

lemma mtime_cache_dump_data: "mtime_cache (dump_data E c S) = mtime_cache S"
  by (simp add: dump_data_def log_def)

lemma run_leaves_mtime_cache_empty: "mtime_cache (snd (run E c S)) = Map.empty"
proof -
  obtain r1 S1 where r1: "run_assets E c (prereqs c) (virgin S) (run_start S) = (r1, S1)"
    by (cases "run_assets E c (prereqs c) (virgin S) (run_start S)")
  have m1: "mtime_cache S1 = Map.empty"
    using quiet_run_assets [OF r1] by (simp add: quiet_def run_start_def)
  show ?thesis
  proof (cases r1)
    case (Inl e)
    then show ?thesis using r1 m1 by (simp add: run_def)
  next
    case (Inr change1)
    obtain r2 S2 where r2: "run_assets E c (generate c) change1 (S1\<lparr>prereq := False\<rparr>) = (r2, S2)"
      by (cases "run_assets E c (generate c) change1 (S1\<lparr>prereq := False\<rparr>)")
    have m2: "mtime_cache S2 = Map.empty"
      using quiet_run_assets [OF r2] m1 by (simp add: quiet_def)
    show ?thesis
      using r1 Inr r2 m2
      by (cases r2) (simp_all add: run_def mtime_cache_write_manifest mtime_cache_dump_data)
  qed
qed

text \<open>
  C3.  The cache a run hands to \<^verbatim>\<open>newer\<close> is empty when the run ends, whatever the run
  did: nothing ever stores a time in it.  In a run over two fresh assets the config
  file's time is read from the file system once for each of them.
\<close>

theorem config_mtime_read_again_for_each_asset:
  "mtime_cache (snd (run E c S)) = Map.empty
   \<and> trace (snd (run ex_env (ex_conf [] [ex_binary ''a.txt'', ex_binary ''b.txt''])
                     (ex_built\<lparr>virgin := False\<rparr>)))
       = [Stat ''/p/assetgen.yaml'', Stat ''/p/out/a.txt'',
          Stat ''/p/assetgen.yaml'', Stat ''/p/out/b.txt'']"
  by (simp add: run_leaves_mtime_cache_empty) (simp add: ex_defs eval_defs)

section \<open>Embedding: the limit on inlined data\<close>






section \<open>The first substitution pass and the later ones\<close>

lemma sub_embeds_steps:
  assumes refl: "\<And>S. R S S"
      and trans: "\<And>S S1 S2. R S S1 \<Longrightarrow> R S1 S2 \<Longrightarrow> R S S2"
      and step: "\<And>p S r S'. f p S = (r, S') \<Longrightarrow> R S S'"
  shows "sub_embeds f content S = (r, S') \<Longrightarrow> R S S'"
proof (induction content arbitrary: S r S' rule: embed_paths.induct)
  case 1
  then show ?case by (simp add: refl)
next
  case (2 x xs)
  show ?case
  proof (cases "match_embed (x # xs)")
    case None
    obtain r2 S2 where r2: "sub_embeds f xs S = (r2, S2)" by (cases "sub_embeds f xs S")
    have "R S S2" using "2.IH"(1) [OF None r2] .
    then show ?thesis using "2.prems" None r2 by (auto split: sum.splits)
  next
    case (Some m)
    obtain p rest where m: "m = (p, rest)" by (cases m)
    obtain r1 S1 where r1: "f p S = (r1, S1)" by (cases "f p S")
    have q1: "R S S1" using r1 by (rule step)
    show ?thesis
    proof (cases r1)
      case (Inl e)
      then show ?thesis using Some m r1 q1 "2.prems" by simp
    next
      case (Inr t)
      obtain r2 S2 where r2: "sub_embeds f rest S1 = (r2, S2)" by (cases "sub_embeds f rest S1")
      have "R S1 S2" using "2.IH"(2) [OF Some m [symmetric] r2] .
      then have "R S S2" using q1 trans by blast
      then show ?thesis using Some m r1 Inr r2 "2.prems" by (auto split: sum.splits)
    qed
  qed
qed

lemma first_read: "read p S = (r, S') \<Longrightarrow> first S' = first S"
  by (auto simp: read_def log_def split: option.splits)

lemma first_setdefault: "setdefault p v S = (r, S') \<Longrightarrow> first S' = first S"
  by (auto simp: setdefault_def split: option.splits)

lemma first_get_embed_file: "get_embed_file E c a p S = (r, S') \<Longrightarrow> first S' = first S"
  by (auto simp: get_embed_file_def print_def log_def
           split: prod.splits sum.splits if_splits option.splits
           dest!: first_read first_setdefault)

lemma first_convert_to_data_uri: "convert_to_data_uri E c a p S = (r, S') \<Longrightarrow> first S' = first S"
  by (auto simp: convert_to_data_uri_def exit_def print_def log_def Let_def
           split: prod.splits sum.splits if_splits option.splits
           dest!: first_get_embed_file)

lemma first_convert_to_url: "convert_to_url E c a p S = (r, S') \<Longrightarrow> first S' = first S"
  by (auto simp: convert_to_url_def split: prod.splits sum.splits if_splits
           dest!: first_get_embed_file)

lemma first_do_cmd: "do_cmd E args S = (r, S') \<Longrightarrow> first S' = first S"
  by (auto simp: do_cmd_def Let_def log_def split: prod.splits if_splits)

lemma first_stylus: "stylus E a src S = (r, S') \<Longrightarrow> first S' = first S"
  by (auto simp: stylus_def Let_def rmtree_def write_file_def log_def split: prod.splits sum.splits
           dest!: first_read first_do_cmd)

lemma first_css_source: "css_source E a b src S = (r, S') \<Longrightarrow> first S' = first S"
  by (auto simp: css_source_def split: source.splits if_splits
           dest!: first_read first_do_cmd first_stylus)

lemma first_css_sources: "css_sources E a b srcs S = (r, S') \<Longrightarrow> first S' = first S"
  by (induction srcs arbitrary: S r S')
     (auto split: prod.splits sum.splits dest!: first_css_source)

lemma first_update_manifest: "first (update_manifest c lp v S) = first S"
  by (simp add: update_manifest_def Let_def print_def remove_def log_def split: option.splits)

lemma first_emit: "first (emit E c key p content ext S) = first S"
  by (simp add: emit_def Let_def first_update_manifest write_file_def print_def log_def)

lemma embed_ends_first_pass: "embed f content S = (Inr out, S') \<Longrightarrow> \<not> first S'"
  by (auto simp: embed_def split: prod.splits sum.splits)

lemma get_embed_file_later:
  "\<not> first S \<Longrightarrow>
   get_embed_file E c a p S = (case cache S p of None \<Rightarrow> (Inl (KeyError p), S) | Some v \<Rightarrow> (Inr v, S))"
  by (simp add: get_embed_file_def)

lemma convert_to_url_later:
  "\<not> first S \<Longrightarrow>
   convert_to_url E c a p S =
     (case cache S p of
        None \<Rightarrow> (Inl (KeyError p), S)
      | Some (data, ok) \<Rightarrow>
          (Inr (if ok then url_form (get_embed_url E c a p (Some data)) else data), S))"
  by (auto simp: convert_to_url_def get_embed_file_later split: option.splits)

lemma url_pass_later:
  assumes "\<not> first S" and "cache S p = None"
  shows "p \<in> set (embed_paths content)
         \<Longrightarrow> \<exists>q. sub_embeds (convert_to_url E c a) content S = (Inl (KeyError q), S)"
proof (induction content rule: embed_paths.induct)
  case 1
  then show ?case by simp
next
  case (2 x xs)
  show ?case
  proof (cases "match_embed (x # xs)")
    case None
    then have "p \<in> set (embed_paths xs)" using "2.prems" by simp
    then obtain q where "sub_embeds (convert_to_url E c a) xs S = (Inl (KeyError q), S)"
      using "2.IH"(1) [OF None] by blast
    then show ?thesis using None by auto
  next
    case (Some m)
    obtain p' rest where m: "m = (p', rest)" by (cases m)
    show ?thesis
    proof (cases "cache S p'")
      case None
      then have "convert_to_url E c a p' S = (Inl (KeyError p'), S)"
        using assms(1) by (simp add: convert_to_url_later)
      then show ?thesis using Some m by auto
    next
      case (Some v)
      obtain data ok where v: "v = (data, ok)" by (cases v)
      have r: "\<exists>t. convert_to_url E c a p' S = (Inr t, S)"
        using assms(1) Some v by (simp add: convert_to_url_later)
      have "p \<noteq> p'" using Some assms(2) by auto
      then have "p \<in> set (embed_paths rest)"
        using "2.prems" \<open>match_embed (x # xs) = Some m\<close> m by simp
      then obtain q where "sub_embeds (convert_to_url E c a) rest S = (Inl (KeyError q), S)"
        using "2.IH"(2) [OF \<open>match_embed (x # xs) = Some m\<close> m [symmetric]] by blast
      then show ?thesis using \<open>match_embed (x # xs) = Some m\<close> m r by auto
    qed
  qed
qed

lemma first_sub_embeds_url:
  "sub_embeds (convert_to_url E c a) content S = (r, S') \<Longrightarrow> first S' = first S"
proof (rule sub_embeds_steps [where R = "\<lambda>S S'. first S' = first S" and f = "convert_to_url E c a"])
  show "\<And>p S r S'. convert_to_url E c a p S = (r, S') \<Longrightarrow> first S' = first S"
    by (rule first_convert_to_url)
qed simp_all

lemma first_sub_embeds_data_uri:
  "sub_embeds (convert_to_data_uri E c a) content S = (r, S') \<Longrightarrow> first S' = first S"
proof (rule sub_embeds_steps [where R = "\<lambda>S S'. first S' = first S" and f = "convert_to_data_uri E c a"])
  show "\<And>p S r S'. convert_to_data_uri E c a p S = (r, S') \<Longrightarrow> first S' = first S"
    by (rule first_convert_to_data_uri)
qed simp_all

lemma first_embed_url:
  "\<not> first S \<Longrightarrow> embed (convert_to_url E c a) content S = (r, S') \<Longrightarrow> \<not> first S'"
  by (auto simp: embed_def split: prod.splits sum.splits dest!: first_sub_embeds_url)

lemma first_embed_data_uri:
  "\<not> first S \<Longrightarrow> embed (convert_to_data_uri E c a) content S = (r, S') \<Longrightarrow> \<not> first S'"
  by (auto simp: embed_def split: prod.splits sum.splits dest!: first_sub_embeds_data_uri)

lemma first_css_variant_later:
  assumes "\<not> first S" and "css_variant E c a b S = (r, S')"
  shows "\<not> first S'"
proof -
  obtain r1 S1 where s: "css_sources E a b (sources a) S = (r1, S1)"
    by (cases "css_sources E a b (sources a) S")
  have f1: "\<not> first S1" using first_css_sources [OF s] assms(1) by simp
  have u: "\<not> first S'"
    if "\<not> first T"
      and "(case embed (convert_to_url E c a) css T of
              (Inl e, S3) \<Rightarrow> (Inl e, S3)
            | (Inr out, S3) \<Rightarrow> (Inr False, emit E c (path a) (path a) out b S3)) = (r, S')"
    for T css
    using that by (auto simp: first_emit split: prod.splits sum.splits dest: first_embed_url)
  show ?thesis
  proof (cases r1)
    case (Inl e)
    then show ?thesis using assms(2) s f1 by (simp add: css_variant_def)
  next
    case (Inr css)
    show ?thesis
    proof (cases "truthy (embed_path_root (spec_of a)) \<and> truthy (embed_url_base (spec_of a))")
      case False
      then have "(case embed (convert_to_url E c a) css S1 of
                    (Inl e, S3) \<Rightarrow> (Inl e, S3)
                  | (Inr out, S3) \<Rightarrow> (Inr False, emit E c (path a) (path a) out b S3)) = (r, S')"
        using assms(2) s Inr by (auto simp: css_variant_def)
      then show ?thesis using f1 u by blast
    next
      case True
      obtain r2 S2 where d: "embed (convert_to_data_uri E c a) css S1 = (r2, S2)"
        by (cases "embed (convert_to_data_uri E c a) css S1")
      have f2: "\<not> first S2" using f1 d by (rule first_embed_data_uri)
      show ?thesis
      proof (cases r2)
        case (Inl e)
        then show ?thesis using assms(2) s \<open>r1 = Inr css\<close> True d f2 by (simp add: css_variant_def)
      next
        case (Inr out)
        show ?thesis
        proof (cases "embed_only (spec_of a)")
          case True
          then show ?thesis
            using assms(2) s \<open>r1 = Inr css\<close> \<open>truthy (embed_path_root (spec_of a)) \<and> truthy (embed_url_base (spec_of a))\<close>
                  d Inr f2
            by (auto simp: css_variant_def first_emit)
        next
          case False
          have f3: "\<not> first (emit E c (path a) (path a) out (embed_extension (spec_of a) @ b) S2)"
            using f2 by (simp add: first_emit)
          have "(case embed (convert_to_url E c a) css
                        (emit E c (path a) (path a) out (embed_extension (spec_of a) @ b) S2) of
                   (Inl e, S3) \<Rightarrow> (Inl e, S3)
                 | (Inr out, S3) \<Rightarrow> (Inr False, emit E c (path a) (path a) out b S3)) = (r, S')"
            using assms(2) s \<open>r1 = Inr css\<close> \<open>truthy (embed_path_root (spec_of a)) \<and> truthy (embed_url_base (spec_of a))\<close>
                  d Inr False
            by (auto simp: css_variant_def)
          then show ?thesis using f3 u by blast
        qed
      qed
    qed
  qed
qed

text \<open>
  C10.  Once the first pass is over, \<^verbatim>\<open>get_embed_file\<close> does not touch the file system: it
  returns the cache entry and leaves the state as it is, and for a path that is not in
  the cache it raises \<^verbatim>\<open>KeyError\<close>, which is not the abort condition.  So do both
  replacers, and so does a whole \<^verbatim>\<open>url()\<close> pass over a text that holds such a path.  Every
  pass that completes ends the first pass, \<^verbatim>\<open>emit\<close> does not reopen it, and a variant
  started after it ends after it: the \<^verbatim>\<open>url()\<close> pass that follows the data-URI pass and
  every pass of the bidi variant are later passes.
\<close>

theorem later_pass_lookup_is_unguarded:
  assumes "\<not> first S"
  shows "get_embed_file E c a p S
           = (case cache S p of None \<Rightarrow> (Inl (KeyError p), S) | Some v \<Rightarrow> (Inr v, S))
       \<and> (cache S p = None \<longrightarrow> convert_to_url E c a p S = (Inl (KeyError p), S))
       \<and> (cache S p = None \<and> guess_type E p = Some ctype \<and> ctype \<noteq> []
            \<longrightarrow> convert_to_data_uri E c a p S = (Inl (KeyError p), S))
       \<and> (cache S p = None \<and> p \<in> set (embed_paths content)
            \<longrightarrow> (\<exists>q. embed (convert_to_url E c a) content S = (Inl (KeyError q), S)))
       \<and> (embed f src T = (Inr out, T') \<longrightarrow> \<not> first T')
       \<and> first (emit E c key path' body ext T) = first T
       \<and> (css_variant E c a b S = (r, S') \<longrightarrow> \<not> first S')"
proof (intro conjI impI)
  show "get_embed_file E c a p S
          = (case cache S p of None \<Rightarrow> (Inl (KeyError p), S) | Some v \<Rightarrow> (Inr v, S))"
    using assms by (rule get_embed_file_later)
next
  assume "cache S p = None"
  then show "convert_to_url E c a p S = (Inl (KeyError p), S)"
    using assms by (simp add: convert_to_url_later)
next
  assume "cache S p = None \<and> guess_type E p = Some ctype \<and> ctype \<noteq> []"
  then show "convert_to_data_uri E c a p S = (Inl (KeyError p), S)"
    using assms by (simp add: convert_to_data_uri_def get_embed_file_later)
next
  assume "cache S p = None \<and> p \<in> set (embed_paths content)"
  then obtain q where "sub_embeds (convert_to_url E c a) content S = (Inl (KeyError q), S)"
    using url_pass_later [OF assms] by blast
  then show "\<exists>q. embed (convert_to_url E c a) content S = (Inl (KeyError q), S)"
    by (auto simp: embed_def)
next
  assume "embed f src T = (Inr out, T')"
  then show "\<not> first T'" by (rule embed_ends_first_pass)
next
  show "first (emit E c key path' body ext T) = first T" by (rule first_emit)
next
  assume "css_variant E c a b S = (r, S')"
  then show "\<not> first S'" using assms first_css_variant_later by blast
qed

theorem later_pass_lookup_is_unguarded_witness:
  "get_embed_file ex_env (ex_conf [] []) (ex_css ''x.png'') ''x.png'' (ex_state Map.empty)
     = (Inl (KeyError ''x.png''), ex_state Map.empty)
   \<and> convert_to_url ex_env (ex_conf [] []) (ex_css ''x.png'') ''x.png'' (ex_state Map.empty)
     = (Inl (KeyError ''x.png''), ex_state Map.empty)
   \<and> convert_to_data_uri ex_env (ex_conf [] []) (ex_css ''x.png'') ''x.png'' (ex_state Map.empty)
     = (Inl (KeyError ''x.png''), ex_state Map.empty)
   \<and> (\<exists>q. embed (convert_to_url ex_env (ex_conf [] []) (ex_css ''x.png'')) (ex_occurrence ''x.png'')
              (ex_state Map.empty)
            = (Inl (KeyError q), ex_state Map.empty))
   \<and> \<not> first (ex_first\<lparr>first := False\<rparr>)
   \<and> \<not> first (snd (css_variant ex_env (ex_conf [] []) (ex_css ''x.png'') [] (ex_state Map.empty)))"
proof -
  let ?S = "ex_state Map.empty"
  let ?a = "ex_css ''x.png''"
  let ?c = "ex_conf [] []"
  have nf: "\<not> first ?S" by (simp add: ex_state_def)
  have ch: "cache ?S ''x.png'' = None" by (simp add: ex_state_def)
  have g: "guess_type ex_env ''x.png'' = Some ''image/png''" by (simp add: ex_env_def endswith_def)
  have occ: "''x.png'' \<in> set (embed_paths (ex_occurrence ''x.png''))"
    by (simp add: ex_occurrence_def match_embed_def startswith_def dquote_def)
  have e: "embed (convert_to_url ex_env ?c ?a) [] ex_first = (Inr [], ex_first\<lparr>first := False\<rparr>)"
    by (simp add: embed_def)
  have v: "css_variant ex_env ?c ?a [] ?S
             = (fst (css_variant ex_env ?c ?a [] ?S), snd (css_variant ex_env ?c ?a [] ?S))"
    by simp
  show ?thesis
    using later_pass_lookup_is_unguarded
            [OF nf, where E = ex_env and c = ?c and a = ?a and p = "''x.png''"
               and ctype = "''image/png''" and content = "ex_occurrence ''x.png''"
               and f = "convert_to_url ex_env ?c ?a" and src = "[]" and T = ex_first
               and out = "[]" and T' = "ex_first\<lparr>first := False\<rparr>" and b = "[]"
               and r = "fst (css_variant ex_env ?c ?a [] ?S)"
               and S' = "snd (css_variant ex_env ?c ?a [] ?S)"]
          ch g occ e
    by simp
qed

text \<open>
  A call of \<^verbatim>\<open>generate\<close> that meets a new path in a later pass: the flipped stylesheet
  names an image the base stylesheet does not.
\<close>

lemma flipped_variant_raises_KeyError:
  "fst (css_generate ex_flip_env (ex_conf [] []) ex_bidi
          (ex_state [''/p/img/left.png'' \<mapsto> (1, ''L''), ''/p/img/right.png'' \<mapsto> (1, ''R'')]))
     = Inl (KeyError ''right.png'')"
  by (simp add: ex_flip_env_def ex_bidi_def ex_occurrence_def ex_defs css_eval_defs do_cmd_def
        startswith_def endswith_def join_def emit_eval_defs path_eval_defs b64char_def b64chars_def)

section \<open>A content type that cannot be guessed\<close>

lemma convert_to_data_uri_undetected:
  assumes "guess_type E p = None \<or> guess_type E p = Some []"
  shows "convert_to_data_uri E c a p S
           = (Inl (AppExit (Some (undetected p))), print (''ERROR: '' @ undetected p) S)"
  using assms by (auto simp: convert_to_data_uri_def exit_def undetected_def)

lemma get_embed_file_first_returns:
  assumes "first S" and "embed_path_root (spec_of a) = Some root"
  shows "\<exists>v S1. get_embed_file E c a p S = (Inr v, S1)"
  using assms
  by (auto simp: get_embed_file_def join_root_def setdefault_def
           split: prod.splits sum.splits option.splits)

lemma convert_to_data_uri_first:
  assumes "first S" and "embed_path_root (spec_of a) = Some root"
  shows "(\<exists>t S1. convert_to_data_uri E c a p S = (Inr t, S1) \<and> first S1)
       \<or> (\<exists>S1. convert_to_data_uri E c a p S = (Inl (AppExit (Some (undetected p))), S1))"
proof (cases "guess_type E p = None \<or> guess_type E p = Some []")
  case True
  then show ?thesis by (simp add: convert_to_data_uri_undetected)
next
  case False
  then obtain ctype where ct: "guess_type E p = Some ctype" "ctype \<noteq> []" by auto
  obtain v S1 where g: "get_embed_file E c a p S = (Inr v, S1)"
    using get_embed_file_first_returns [OF assms] by blast
  have f1: "first S1" using first_get_embed_file [OF g] assms(1) by simp
  obtain data ok where v: "v = (data, ok)" by (cases v)
  have "\<exists>t. convert_to_data_uri E c a p S = (Inr t, S1)"
    using ct g v by (simp add: convert_to_data_uri_def Let_def)
  then show ?thesis using f1 by blast
qed

lemma data_uri_pass_aborts:
  assumes root: "embed_path_root (spec_of a) = Some root"
      and bad: "guess_type E p = None \<or> guess_type E p = Some []"
  shows "first S \<Longrightarrow> p \<in> set (embed_paths content)
         \<Longrightarrow> \<exists>q S'. sub_embeds (convert_to_data_uri E c a) content S
                        = (Inl (AppExit (Some (undetected q))), S')"
proof (induction content arbitrary: S rule: embed_paths.induct)
  case 1
  then show ?case by simp
next
  case (2 x xs)
  show ?case
  proof (cases "match_embed (x # xs)")
    case None
    then have "p \<in> set (embed_paths xs)" using "2.prems" by simp
    then obtain q S' where
      "sub_embeds (convert_to_data_uri E c a) xs S = (Inl (AppExit (Some (undetected q))), S')"
      using "2.IH"(1) [OF None "2.prems"(1)] by blast
    then show ?thesis using None by auto
  next
    case (Some m)
    obtain p' rest where m: "m = (p', rest)" by (cases m)
    consider (ok) t S1 where "convert_to_data_uri E c a p' S = (Inr t, S1)" "first S1"
      | (abort) S1 where "convert_to_data_uri E c a p' S = (Inl (AppExit (Some (undetected p'))), S1)"
      using convert_to_data_uri_first [OF "2.prems"(1) root] by blast
    then show ?thesis
    proof cases
      case abort
      then show ?thesis using Some m by auto
    next
      case ok
      have "p \<noteq> p'" using ok(1) bad by (auto simp: convert_to_data_uri_undetected)
      then have "p \<in> set (embed_paths rest)" using "2.prems"(2) Some m by simp
      then obtain q S' where
        "sub_embeds (convert_to_data_uri E c a) rest S1 = (Inl (AppExit (Some (undetected q))), S')"
        using "2.IH"(2) [OF Some m [symmetric] ok(2)] by blast
      then show ?thesis using Some m ok(1) by auto
    qed
  qed
qed

lemma truthy_Some: "truthy v \<Longrightarrow> \<exists>s. v = Some s"
  by (cases v) (simp_all add: truthy_def)

lemma css_generate_aborts:
  assumes css: "truthy (embed_path_root (spec_of a))" "truthy (embed_url_base (spec_of a))"
      and bad: "guess_type E p = None \<or> guess_type E p = Some []"
      and src: "css_sources E a [] (sources a) (S\<lparr>first := True, cache := Map.empty\<rparr>) = (Inr content, S1)"
      and occ: "p \<in> set (embed_paths content)"
  shows "\<exists>q S'. css_generate E c a S = (Inl (AppExit (Some (undetected q))), S')"
proof -
  obtain root where root: "embed_path_root (spec_of a) = Some root"
    using truthy_Some [OF css(1)] by blast
  have f: "first S1" using first_css_sources [OF src] by simp
  obtain q S' where
    q: "sub_embeds (convert_to_data_uri E c a) content S1 = (Inl (AppExit (Some (undetected q))), S')"
    using data_uri_pass_aborts [OF root bad f occ] by blast
  have "css_variant E c a [] (S\<lparr>first := True, cache := Map.empty\<rparr>)
          = (Inl (AppExit (Some (undetected q))), S')"
    using css src q by (simp add: css_variant_def embed_def)
  then have "css_generate E c a S = (Inl (AppExit (Some (undetected q))), S')"
    by (simp add: css_generate_def todo_def)
  then show ?thesis by blast
qed

lemma run_assets_append:
  "run_assets E c (xs @ ys) ch S =
     (case run_assets E c xs ch S of
        (Inl e, S1) \<Rightarrow> (Inl e, S1)
      | (Inr ch1, S1) \<Rightarrow> run_assets E c ys ch1 S1)"
  by (induction xs arbitrary: ch S) (auto split: prod.splits sum.splits)

lemma run_aborts_in_output_phase:
  assumes "generate c = xs @ a # rest"
      and "run_assets E c (prereqs c) (virgin S) (run_start S) = (Inr ch1, S1)"
      and "run_assets E c xs ch1 (S1\<lparr>prereq := False\<rparr>) = (Inr ch2, S2)"
      and "is_fresh E c (path a) (depends a) S2 = (Inr False, S3)"
      and "generate_asset E c a S3 = (Inl e, S4)"
  shows "run E c S = (Inl e, S4)"
  using assms by (simp add: run_def run_assets_append)

text \<open>
  C9.  For a path whose content type cannot be guessed, \<^verbatim>\<open>convert_to_data_uri\<close> prints
  the error and raises the abort condition in whatever state it is called, without
  looking for the file.  When a run reaches a stale stylesheet in the output phase whose
  embedding is configured and whose text holds such a path, the run ends in the abort
  condition.
\<close>

theorem undetected_type_aborts_run:
  assumes bad: "guess_type E p = None \<or> guess_type E p = Some []"
      and css: "handler_of a = CSSAsset" "truthy (embed_path_root (spec_of a))"
               "truthy (embed_url_base (spec_of a))"
      and reach: "generate c = xs @ a # rest"
                 "run_assets E c (prereqs c) (virgin S) (run_start S) = (Inr ch1, S1)"
                 "run_assets E c xs ch1 (S1\<lparr>prereq := False\<rparr>) = (Inr ch2, S2)"
                 "is_fresh E c (path a) (depends a) S2 = (Inr False, S3)"
      and src: "css_sources E a [] (sources a) (S3\<lparr>first := True, cache := Map.empty\<rparr>) = (Inr content, S4)"
      and occ: "p \<in> set (embed_paths content)"
  shows "convert_to_data_uri E c a p T
           = (Inl (AppExit (Some (undetected p))), print (''ERROR: '' @ undetected p) T)
       \<and> (\<exists>q S'. run E c S = (Inl (AppExit (Some (undetected q))), S'))"
proof
  show "convert_to_data_uri E c a p T
          = (Inl (AppExit (Some (undetected p))), print (''ERROR: '' @ undetected p) T)"
    using bad by (rule convert_to_data_uri_undetected)
next
  obtain q S' where "css_generate E c a S3 = (Inl (AppExit (Some (undetected q))), S')"
    using css_generate_aborts [OF css(2,3) bad src occ] by blast
  then have "generate_asset E c a S3 = (Inl (AppExit (Some (undetected q))), S')"
    using css(1) by (simp add: generate_asset_def)
  then have "run E c S = (Inl (AppExit (Some (undetected q))), S')"
    using reach by (rule run_aborts_in_output_phase [rotated 4])
  then show "\<exists>q S'. run E c S = (Inl (AppExit (Some (undetected q))), S')" by blast
qed

theorem undetected_type_aborts_run_witness:
  "convert_to_data_uri ex_env (ex_conf [] [ex_css ''sprite'']) (ex_css ''sprite'') ''sprite''
       ex_fresh_start
     = (Inl (AppExit (Some (undetected ''sprite''))),
        print (''ERROR: '' @ undetected ''sprite'') ex_fresh_start)
   \<and> (\<exists>q S'. run ex_env (ex_conf [] [ex_css ''sprite'']) ex_fresh_start
                 = (Inl (AppExit (Some (undetected q))), S'))"
proof -
  let ?a = "ex_css ''sprite''"
  let ?c = "ex_conf [] [?a]"
  let ?T = "(run_start ex_fresh_start)\<lparr>prereq := False\<rparr>"
  have bad: "guess_type ex_env ''sprite'' = None \<or> guess_type ex_env ''sprite'' = Some []"
    by (simp add: ex_env_def endswith_def)
  have css: "handler_of ?a = CSSAsset" "truthy (embed_path_root (spec_of ?a))"
      "truthy (embed_url_base (spec_of ?a))"
    by (simp_all add: ex_css_def ex_spec_def truthy_def)
  have r1: "generate ?c = [] @ ?a # []" by (simp add: ex_conf_def)
  have r2: "run_assets ex_env ?c (prereqs ?c) (virgin ex_fresh_start) (run_start ex_fresh_start)
              = (Inr True, run_start ex_fresh_start)"
    by (simp add: ex_conf_def ex_fresh_start_def ex_state_def)
  have r3: "run_assets ex_env ?c [] True ?T = (Inr True, ?T)" by simp
  have r4: "is_fresh ex_env ?c (path ?a) (depends ?a) ?T = (Inr False, ?T)"
    by (simp add: is_fresh_def run_start_def ex_fresh_start_def ex_defs)
  have src: "css_sources ex_env ?a [] (sources ?a) (?T\<lparr>first := True, cache := Map.empty\<rparr>)
               = (Inr (''a{b:embed('' @ [dquote] @ ''sprite'' @ [dquote] @ '')}''),
                  ?T\<lparr>first := True, cache := Map.empty\<rparr>)"
    by (simp add: ex_css_def css_source_def)
  have occ: "''sprite'' \<in> set (embed_paths (''a{b:embed('' @ [dquote] @ ''sprite'' @ [dquote] @ '')}''))"
    by (simp add: match_embed_def startswith_def dquote_def)
  show ?thesis
    using undetected_type_aborts_run [OF bad css r1 r2 r3 r4 src occ] by simp
qed

section \<open>An embed file that is missing\<close>




section \<open>Loading the durable record\<close>

lemma any_newer_known:
  "known_mtime T = known_mtime S \<Longrightarrow> fst (any_newer deps out T) = fst (any_newer deps out S)"
proof (induction deps arbitrary: S T)
  case Nil
  show ?case by simp
next
  case (Cons dep deps)
  let ?S1 = "snd (newer dep out (mtime_cache S) S)"
  let ?T1 = "snd (newer dep out (mtime_cache T) T)"
  have k: "known_mtime T p = known_mtime S p" for p using Cons.prems by simp
  have f: "fst (newer dep out (mtime_cache T) T) = fst (newer dep out (mtime_cache S) S)"
    by (simp add: newer_fst k split: option.splits)
  have "known_mtime ?T1 = known_mtime ?S1"
    using Cons.prems only_logs_known [OF newer_snd [of S dep out "mtime_cache S"]]
          only_logs_known [OF newer_snd [of T dep out "mtime_cache T"]]
    by (simp add: fun_eq_iff)
  then have "fst (any_newer deps out ?T1) = fst (any_newer deps out ?S1)" by (rule Cons.IH)
  then show ?case
    using f
    by (cases "newer dep out (mtime_cache S) S"; cases "newer dep out (mtime_cache T) T")
       (auto split: sum.splits)
qed

lemma stale_against_known:
  assumes "known_mtime T = known_mtime S"
  shows "fst (stale_against c deps out T) = fst (stale_against c deps out S)"
proof -
  let ?S1 = "snd (any_newer deps out S)"
  let ?T1 = "snd (any_newer deps out T)"
  have f: "fst (any_newer deps out T) = fst (any_newer deps out S)"
    using assms by (rule any_newer_known)
  have "known_mtime ?T1 p = known_mtime ?S1 p" for p
    using assms only_logs_known [OF any_newer_snd [of S deps out]]
          only_logs_known [OF any_newer_snd [of T deps out]]
    by simp
  then have "fst (newer (config_path c) out (mtime_cache ?T1) ?T1)
               = fst (newer (config_path c) out (mtime_cache ?S1) ?S1)"
    by (simp add: newer_fst split: option.splits)
  then show ?thesis
    using f
    by (cases "any_newer deps out S"; cases "any_newer deps out T")
       (auto simp: stale_against_def split: sum.splits)
qed

lemma prereq_check_ignores_record:
  "fst (is_fresh E c key deps (S\<lparr>prereq := True, manifest := m, output_data := od, prereq_data := pd\<rparr>))
     = fst (is_fresh E c key deps (S\<lparr>prereq := True\<rparr>))"
proof -
  let ?T = "S\<lparr>prereq := True, manifest := m, output_data := od, prereq_data := pd\<rparr>"
  let ?S = "S\<lparr>prereq := True\<rparr>"
  have k: "known_mtime ?T = known_mtime ?S" by (simp add: known_mtime_def fun_eq_iff split: option.splits)
  have s: "fst (stale_against c deps (join (base_dir c) key) ?T)
             = fst (stale_against c deps (join (base_dir c) key) ?S)"
    using k by (rule stale_against_known)
  have i: "isfile ?T = isfile ?S" by (simp add: isfile_def fun_eq_iff)
  show ?thesis
    using s
    by (cases "stale_against c deps (join (base_dir c) key) ?S";
        cases "stale_against c deps (join (base_dir c) key) ?T")
       (auto simp: is_fresh_def Let_def isfile_def split: sum.splits)
qed

text \<open>
  C8.  A durable record file that does not unpickle loads as the empty record, as a
  missing file does: construction gives the same engine, with three empty dictionaries,
  and logs nothing.  An output asset checked against that record is found stale, whatever
  its files are, and is generated.  A prereq asset is not forced: in the prereq phase the
  answer of the freshness check is the same for every content of the record.
\<close>

theorem unreadable_record_loads_as_empty:
  "load_data (Some (Unreadable bytes)) = load_data None
   \<and> construct (W\<lparr>data_file := Some (Unreadable bytes)\<rparr>)
       = (construct (W\<lparr>data_file := None\<rparr>))\<lparr>data_file := Some (Unreadable bytes)\<rparr>
   \<and> manifest (construct (W\<lparr>data_file := Some (Unreadable bytes)\<rparr>)) = Map.empty
   \<and> output_data (construct (W\<lparr>data_file := Some (Unreadable bytes)\<rparr>)) = Map.empty
   \<and> prereq_data (construct (W\<lparr>data_file := Some (Unreadable bytes)\<rparr>)) = Map.empty
   \<and> trace (construct (W\<lparr>data_file := Some (Unreadable bytes)\<rparr>)) = trace W
   \<and> is_fresh E c key deps ((construct (W\<lparr>data_file := Some (Unreadable bytes)\<rparr>))\<lparr>prereq := False\<rparr>)
       = (Inr False, (construct (W\<lparr>data_file := Some (Unreadable bytes)\<rparr>))\<lparr>prereq := False\<rparr>)
   \<and> run_assets E c (a # rest) change
         ((construct (W\<lparr>data_file := Some (Unreadable bytes)\<rparr>))\<lparr>prereq := False\<rparr>)
       = (case generate_asset E c a
                 ((construct (W\<lparr>data_file := Some (Unreadable bytes)\<rparr>))\<lparr>prereq := False\<rparr>) of
            (Inl e, S2) \<Rightarrow> (Inl e, S2)
          | (Inr u, S2) \<Rightarrow> run_assets E c rest True S2)
   \<and> fst (is_fresh E c key deps
             (S\<lparr>prereq := True, manifest := m, output_data := od, prereq_data := pd\<rparr>))
       = fst (is_fresh E c key deps (S\<lparr>prereq := True\<rparr>))"
proof -
  let ?C = "(construct (W\<lparr>data_file := Some (Unreadable bytes)\<rparr>))\<lparr>prereq := False\<rparr>"
  have f: "is_fresh E c k ds ?C = (Inr False, ?C)" for k ds
    by (simp add: load_data_def construct_def is_fresh_def)
  have r: "run_assets E c (a # rest) change ?C
             = (case generate_asset E c a ?C of
                  (Inl e, S2) \<Rightarrow> (Inl e, S2)
                | (Inr u, S2) \<Rightarrow> run_assets E c rest True S2)"
    by (simp add: f)
  show ?thesis
    using f r prereq_check_ignores_record [where E = E and c = c and key = key and deps = deps and S = S
                                        and m = m and od = od and pd = pd]
    by (simp add: load_data_def construct_def)
qed

text \<open>
  C8 as stated fails for prereq assets: after an unreadable record a prereq whose file is
  newer than its dependency and than the config file is found fresh, and the first run
  completes without generating it.
\<close>

theorem prereq_stays_fresh_after_unreadable_record:
  "data_file ex_unreadable = Some (Unreadable ''junk'')
   \<and> fst (is_fresh ex_env (ex_conf [ex_dependent] []) (path ex_dependent) (depends ex_dependent)
             (run_start (construct ex_unreadable))) = Inr True
   \<and> fst (run ex_env (ex_conf [ex_dependent] []) (construct ex_unreadable)) = Inr ()
   \<and> trace (snd (run ex_env (ex_conf [ex_dependent] []) (construct ex_unreadable)))
       = [Stat ''/p/a.css'', Stat ''/p/gen.css'', Stat ''/p/assetgen.yaml'', Stat ''/p/gen.css'',
          Dumped_data ''/tmp/assetgen-0/data'']
   \<and> files (snd (run ex_env (ex_conf [ex_dependent] []) (construct ex_unreadable)))
       = files ex_unreadable"
  by (simp add: ex_unreadable_def ex_dependent_def construct_def load_data_def ex_defs eval_defs
        Let_def)

end
